theory Spec2Isabelle
  imports Complex_Main "HOL-Library.AList"
begin

section \<open>Masks and the overlap metric (util.py)\<close>

text \<open>
  A mask is one slice of the label volume: a two-dimensional array of labels, kept as a
  list of rows. Foreground is the label 1. The comparison \<open>mask == 1\<close> of numpy gives
  a boolean array of the same shape; \<open>np.logical_and\<close> and \<open>np.logical_or\<close> work
  element by element on arrays of one shape (every slice of one volume has the shape of
  the volume's slices), and \<open>.sum()\<close> of a boolean array counts its true entries.
\<close>

type_synonym mask = "nat list list"

definition eq1 :: "mask \<Rightarrow> bool list list" where
  "eq1 m = map (map (\<lambda>v. v = 1)) m"

definition logical_and :: "bool list list \<Rightarrow> bool list list \<Rightarrow> bool list list" where
  "logical_and a b = map2 (map2 (\<and>)) a b"

definition logical_or :: "bool list list \<Rightarrow> bool list list \<Rightarrow> bool list list" where
  "logical_or a b = map2 (map2 (\<or>)) a b"

definition count_true :: "bool list list \<Rightarrow> nat" where
  "count_true a = sum_list (map (\<lambda>row. length (filter id row)) a)"

text \<open>A boolean array used where a label mask is expected: True is 1, False is 0.\<close>

definition of_bools :: "bool list list \<Rightarrow> mask" where
  "of_bools a = map (map (\<lambda>b. if b then 1 else 0)) a"

text \<open>
  \<open>compute_iou\<close> (util.py, lines 288 to 295). The two Python floats and their quotient
  are taken as real numbers, \<open>eps\<close> as the decimal \<open>1e-7\<close>.
\<close>

definition eps :: real where
  "eps = 1 / 10 ^ 7"

definition compute_iou :: "mask \<Rightarrow> mask \<Rightarrow> real" where
  "compute_iou mask1 mask2 =
     (let overlap = count_true (logical_and (eq1 mask1) (eq1 mask2));
          union = count_true (logical_or (eq1 mask1) (eq1 mask2))
      in real overlap / (real union + eps))"

section \<open>The volume propagation engine (annotator_3d.py)\<close>

text \<open>
  The errors the engine can raise, under the names of the specification:
  \<open>InvalidProjection\<close> is the AssertionError of the first statement of
  \<open>_segment_volume\<close>, \<open>EmptyAnnotationSet\<close> the ValueError numpy raises for
  \<open>.min()\<close> of an empty array, \<open>IndexError\<close> an index outside the volume.
  \<open>Stalled\<close> stands for a walk whose increment is 0: the Python loop would stay on one
  slice; no call site passes such an increment.
\<close>

datatype error = InvalidProjection | EmptyAnnotationSet | IndexError | Stalled

text \<open>
  The state the engine works on. \<open>seg\<close> is the output volume, mutated in place;
  \<open>progress_bar\<close> is the optional progress sink, as the number of units it has
  received. \<open>writes\<close> and \<open>calls\<close> are history variables: the slice indices
  assigned to (\<open>seg[z] = ...\<close>), and the prompts and slice indices
  \<open>segment_from_mask\<close> was called with, both in order.
\<close>

record run_state =
  seg :: "mask list"
  progress_bar :: "nat option"
  writes :: "int list"
  calls :: "(mask \<times> int) list"

type_synonym outcome = "error option \<times> run_state"

text \<open>An exception leaves the volume as it was mutated so far and skips the rest.\<close>

definition and_then :: "outcome \<Rightarrow> (run_state \<Rightarrow> outcome) \<Rightarrow> outcome" where
  "and_then r f = (case r of (None, st) \<Rightarrow> f st | (Some e, st) \<Rightarrow> (Some e, st))"

text \<open>numpy indexing along the first axis: a negative index counts from the end.\<close>

definition norm_index :: "nat \<Rightarrow> int \<Rightarrow> nat option" where
  "norm_index n i =
     (if 0 \<le> i \<and> i < int n then Some (nat i)
      else if - int n \<le> i \<and> i < 0 then Some (nat (i + int n))
      else None)"

definition getitem :: "'a list \<Rightarrow> int \<Rightarrow> 'a option" where
  "getitem xs i = map_option (\<lambda>k. xs ! k) (norm_index (length xs) i)"

definition update_progress :: "run_state \<Rightarrow> run_state" where
  "update_progress st =
     (case progress_bar st of
        None \<Rightarrow> st
      | Some n \<Rightarrow> st\<lparr>progress_bar := Some (n + 1)\<rparr>)"

text \<open>
  \<open>seg[z] = segment_from_mask(predictor, prompt, ..., i=z)\<close>: the oracle is called,
  then the slice is assigned. \<open>orc\<close> is \<open>segment_from_mask\<close> with the predictor, the
  embeddings and the projection flags fixed.
\<close>

definition call_oracle :: "(mask \<Rightarrow> int \<Rightarrow> mask) \<Rightarrow> mask \<Rightarrow> int \<Rightarrow> run_state \<Rightarrow> mask \<times> run_state" where
  "call_oracle orc prompt z st = (orc prompt z, st\<lparr>calls := calls st @ [(prompt, z)]\<rparr>)"

definition setitem :: "int \<Rightarrow> mask \<Rightarrow> run_state \<Rightarrow> outcome" where
  "setitem z m st =
     (case norm_index (length (seg st)) z of
        None \<Rightarrow> (Some IndexError, st)
      | Some k \<Rightarrow> (None, st\<lparr>seg := (seg st)[k := m], writes := writes st @ [int k]\<rparr>))"

text \<open>
  The loop of \<open>segment_range\<close> (lines 41 to 61), with \<open>z\<close> the loop variable. The
  verbose and the IOU messages are printed text and are left out.
\<close>

function segment_range_loop ::
  "(mask \<Rightarrow> int \<Rightarrow> mask) \<Rightarrow> int \<Rightarrow> int \<Rightarrow> (int \<Rightarrow> int \<Rightarrow> bool) \<Rightarrow> real option
     \<Rightarrow> int \<Rightarrow> run_state \<Rightarrow> outcome" where
  "segment_range_loop orc z_stop increment stopping_criterion threshold z st =
     (case getitem (seg st) (z - increment) of
        None \<Rightarrow> (Some IndexError, st)
      | Some seg_prev \<Rightarrow>
          (let (seg_z, st1) = call_oracle orc seg_prev z st
           in if (case threshold of None \<Rightarrow> False
                  | Some t \<Rightarrow> compute_iou seg_prev seg_z < t)
              then (None, st1)
              else (case setitem z seg_z st1 of
                      (Some e, st2) \<Rightarrow> (Some e, st2)
                    | (None, st2) \<Rightarrow>
                        if stopping_criterion (z + increment) z_stop then (None, st2)
                        else if increment = 0 then (Some Stalled, update_progress st2)
                        else segment_range_loop orc z_stop increment stopping_criterion
                               threshold (z + increment) (update_progress st2))))"
  by pat_completeness auto

termination segment_range_loop
  apply (relation "measure (\<lambda>(orc, z_stop, increment, crit, thr, z, st).
          if 0 < increment then nat (int (length (seg st)) - z)
          else nat (z + int (length (seg st)) + 1))")
   apply simp
  apply (auto simp: call_oracle_def update_progress_def setitem_def norm_index_def
      split: option.splits if_splits)
  done

definition segment_range ::
  "(mask \<Rightarrow> int \<Rightarrow> mask) \<Rightarrow> int \<Rightarrow> int \<Rightarrow> int \<Rightarrow> (int \<Rightarrow> int \<Rightarrow> bool) \<Rightarrow> real option
     \<Rightarrow> run_state \<Rightarrow> outcome" where
  "segment_range orc z_start z_stop increment stopping_criterion threshold st =
     segment_range_loop orc z_stop increment stopping_criterion threshold (z_start + increment) st"

text \<open>
  The statements both union steps of \<open>_segment_volume\<close> share (lines 91 to 94 and
  108 to 111): the prompt is the logical OR of the foreground of the slices \<open>a\<close> and
  \<open>b\<close>, slice \<open>z\<close> is segmented from it and assigned, and the progress sink gets
  one unit.
\<close>

definition segment_combined ::
  "(mask \<Rightarrow> int \<Rightarrow> mask) \<Rightarrow> int \<Rightarrow> int \<Rightarrow> int \<Rightarrow> run_state \<Rightarrow> outcome" where
  "segment_combined orc a b z st =
     (case getitem (seg st) a of
        None \<Rightarrow> (Some IndexError, st)
      | Some seg_a \<Rightarrow>
          (case getitem (seg st) b of
             None \<Rightarrow> (Some IndexError, st)
           | Some seg_b \<Rightarrow>
               (let seg_prompt = of_bools (logical_or (eq1 seg_a) (eq1 seg_b));
                    (seg_z, st1) = call_oracle orc seg_prompt z st
                in and_then (setitem z seg_z st1) (\<lambda>st2. (None, update_progress st2)))))"

text \<open>The body of the loop over consecutive annotated slices (lines 79 to 111).\<close>

definition segment_between ::
  "(mask \<Rightarrow> int \<Rightarrow> mask) \<Rightarrow> int \<Rightarrow> int \<Rightarrow> bool \<Rightarrow> bool \<Rightarrow> int \<Rightarrow> int \<Rightarrow> run_state \<Rightarrow> outcome" where
  "segment_between orc z0 z1 stop_lower stop_upper z_start z_stop st =
     (let slice_diff = z_stop - z_start;
          z_mid = (z_start + z_stop) div 2
      in if slice_diff = 1 then (None, st)
         else if z_start = z0 \<and> stop_lower
           then segment_range orc z_stop z_start (- 1) (\<le>) None st
         else if z_stop = z1 \<and> stop_upper
           then segment_range orc z_start z_stop 1 (\<ge>) None st
         else if slice_diff = 2
           then segment_combined orc z_start z_stop (z_start + 1) st
         else and_then
                (segment_range orc z_start z_mid 1
                   (if slice_diff mod 2 = 0 then (\<ge>) else (>)) None st)
                (\<lambda>st. and_then (segment_range orc z_stop z_mid (- 1) (\<le>) None st)
                (\<lambda>st. if slice_diff mod 2 = 0
                      then segment_combined orc (z_mid - 1) (z_mid + 1) z_mid st
                      else (None, st))))"

fun segment_pairs ::
  "(mask \<Rightarrow> int \<Rightarrow> mask) \<Rightarrow> int \<Rightarrow> int \<Rightarrow> bool \<Rightarrow> bool \<Rightarrow> (int \<times> int) list \<Rightarrow> run_state
     \<Rightarrow> outcome" where
  "segment_pairs orc z0 z1 stop_lower stop_upper [] st = (None, st)"
| "segment_pairs orc z0 z1 stop_lower stop_upper ((z_start, z_stop) # ps) st =
     and_then (segment_between orc z0 z1 stop_lower stop_upper z_start z_stop st)
       (segment_pairs orc z0 z1 stop_lower stop_upper ps)"

text \<open>
  \<open>_segment_volume\<close> (lines 25 to 113). \<open>segment_from_mask\<close> is the external
  oracle, here with its two projection flags as the first arguments; the predictor and
  the embeddings it also takes do not change during a run. \<open>seg.shape[0]\<close> is the
  number of slices of the volume.
\<close>

definition segment_volume ::
  "(bool \<Rightarrow> bool \<Rightarrow> mask \<Rightarrow> int \<Rightarrow> mask) \<Rightarrow> int list \<Rightarrow> bool \<Rightarrow> bool \<Rightarrow> real \<Rightarrow> string
     \<Rightarrow> run_state \<Rightarrow> outcome" where
  "segment_volume segment_from_mask segmented_slices stop_lower stop_upper iou_threshold
       projection st =
     (if projection \<noteq> ''mask'' \<and> projection \<noteq> ''bounding_box''
      then (Some InvalidProjection, st)
      else
        (let (use_mask, use_box) =
               (if projection = ''mask'' then (True, True) else (False, True));
             orc = segment_from_mask use_mask use_box
         in if segmented_slices = [] then (Some EmptyAnnotationSet, st)
            else
              (let z0 = Min (set segmented_slices);
                   z1 = Max (set segmented_slices)
               in and_then
                    (if z0 > 0 \<and> \<not> stop_lower
                     then segment_range orc z0 0 (- 1) (<) (Some iou_threshold) st
                     else (None, st))
                    (\<lambda>st. and_then
                       (if z1 < int (length (seg st)) - 1 \<and> \<not> stop_upper
                        then segment_range orc z1 (int (length (seg st)) - 1) 1 (>)
                               (Some iou_threshold) st
                        else (None, st))
                    (\<lambda>st. if z0 \<noteq> z1
                          then segment_pairs orc z0 z1 stop_lower stop_upper
                                 (zip (butlast segmented_slices) (tl segmented_slices)) st
                          else (None, st))))))"

section \<open>Example inputs\<close>

text \<open>
  Three masks of shape 3 by 3: \<open>mA\<close> has the single foreground pixel (1,1),
  \<open>mB\<close> the single foreground pixel (2,2), \<open>mZ\<close> is empty. \<open>stub\<close> is an
  oracle that returns its prompt unchanged, \<open>fading\<close> one that does so for the
  slices 1 and 3 only and returns the empty mask for every other slice.
\<close>

definition mA :: mask where
  "mA = [[0, 0, 0], [0, 1, 0], [0, 0, 0]]"

definition mB :: mask where
  "mB = [[0, 0, 0], [0, 0, 0], [0, 0, 1]]"

definition mZ :: mask where
  "mZ = [[0, 0, 0], [0, 0, 0], [0, 0, 0]]"

definition stub :: "bool \<Rightarrow> bool \<Rightarrow> mask \<Rightarrow> int \<Rightarrow> mask" where
  "stub use_mask use_box prompt z = prompt"

definition volume :: "mask list \<Rightarrow> run_state" where
  "volume ms = \<lparr>seg = ms, progress_bar = Some 0, writes = [], calls = []\<rparr>"

definition fading :: "bool \<Rightarrow> bool \<Rightarrow> mask \<Rightarrow> int \<Rightarrow> mask" where
  "fading use_mask use_box prompt z = (if z = 1 \<or> z = 3 then prompt else mZ)"

definition vol10 :: "mask list" where
  "vol10 = [mZ, mZ, mA, mZ, mZ, mZ, mB, mB, mZ, mZ]"

section \<open>Notions for one walk of \<open>segment_range\<close>\<close>

text \<open>
  \<open>stops\<close> is the IOU test of the loop: with no threshold it never fires.
  \<open>slice_at st i\<close> reads slice \<open>i\<close> of the volume, for an index inside it.
  \<open>walked orc thr inc z n m st st'\<close> describes a walk that starts at slice \<open>z\<close>
  with step \<open>inc\<close>, has \<open>n\<close> slices before its stopping criterion, and has
  written the first \<open>m\<close> of them: \<open>m = n\<close> when it ran to the criterion,
  \<open>m < n\<close> when the IOU test stopped it at the slice after the \<open>m\<close>-th.
\<close>

definition stops :: "real option \<Rightarrow> mask \<Rightarrow> mask \<Rightarrow> bool" where
  "stops threshold seg_prev seg_z =
     (case threshold of None \<Rightarrow> False | Some t \<Rightarrow> compute_iou seg_prev seg_z < t)"

definition slice_at :: "run_state \<Rightarrow> int \<Rightarrow> mask" where
  "slice_at st i = seg st ! nat i"

definition walked ::
  "(mask \<Rightarrow> int \<Rightarrow> mask) \<Rightarrow> real option \<Rightarrow> int \<Rightarrow> int \<Rightarrow> nat \<Rightarrow> nat \<Rightarrow> run_state \<Rightarrow> run_state \<Rightarrow> bool" where
  "walked orc thr inc z n m st st' \<longleftrightarrow>
     m \<le> n \<and> length (seg st') = length (seg st) \<and>
     writes st' = writes st @ map (\<lambda>k. z + int k * inc) [0..<m] \<and>
     calls st' = calls st @
       map (\<lambda>k. (slice_at st' (z + int k * inc - inc), z + int k * inc))
         [0..<(if m < n then Suc m else m)] \<and>
     (\<forall>i. 0 \<le> i \<and> (\<forall>k<m. i \<noteq> z + int k * inc) \<longrightarrow> slice_at st' i = slice_at st i) \<and>
     (\<forall>k<m. slice_at st' (z + int k * inc) =
               orc (slice_at st' (z + int k * inc - inc)) (z + int k * inc) \<and>
            \<not> stops thr (slice_at st' (z + int k * inc - inc)) (slice_at st' (z + int k * inc))) \<and>
     (m < n \<longrightarrow> stops thr (slice_at st' (z + int m * inc - inc))
                  (orc (slice_at st' (z + int m * inc - inc)) (z + int m * inc))) \<and>
     progress_bar st' = map_option (\<lambda>p. p + (if m < n then m else n - 1)) (progress_bar st)"

definition step_written :: "(mask \<Rightarrow> int \<Rightarrow> mask) \<Rightarrow> int \<Rightarrow> int \<Rightarrow> run_state \<Rightarrow> run_state" where
  "step_written orc inc z st =
     st\<lparr>calls := calls st @ [(slice_at st (z - inc), z)],
        seg := (seg st)[nat z := orc (slice_at st (z - inc)) z],
        writes := writes st @ [z]\<rparr>"

section \<open>Notions for a walk up and a walk down\<close>

definition walked_up ::
  "(mask \<Rightarrow> int \<Rightarrow> mask) \<Rightarrow> real option \<Rightarrow> int \<Rightarrow> int \<Rightarrow> int \<Rightarrow> run_state \<Rightarrow> run_state \<Rightarrow> bool" where
  "walked_up orc thr a b m st st' \<longleftrightarrow>
     a \<le> m \<and> m \<le> b \<and> length (seg st') = length (seg st) \<and>
     writes st' = writes st @ [a + 1..m] \<and>
     calls st' = calls st @
       map (\<lambda>z. (slice_at st' (z - 1), z)) [a + 1..(if m < b then m + 1 else m)] \<and>
     (\<forall>i. 0 \<le> i \<and> \<not> (a < i \<and> i \<le> m) \<longrightarrow> slice_at st' i = slice_at st i) \<and>
     (\<forall>z. a < z \<and> z \<le> m \<longrightarrow>
        slice_at st' z = orc (slice_at st' (z - 1)) z \<and>
        \<not> stops thr (slice_at st' (z - 1)) (slice_at st' z)) \<and>
     (m < b \<longrightarrow> stops thr (slice_at st' m) (orc (slice_at st' m) (m + 1))) \<and>
     progress_bar st' =
       map_option (\<lambda>p. p + (if m < b then nat (m - a) else nat (b - a) - 1)) (progress_bar st)"

definition walked_down ::
  "(mask \<Rightarrow> int \<Rightarrow> mask) \<Rightarrow> real option \<Rightarrow> int \<Rightarrow> int \<Rightarrow> int \<Rightarrow> run_state \<Rightarrow> run_state \<Rightarrow> bool" where
  "walked_down orc thr a b m st st' \<longleftrightarrow>
     b \<le> m \<and> m \<le> a \<and> length (seg st') = length (seg st) \<and>
     writes st' = writes st @ rev [m..a - 1] \<and>
     calls st' = calls st @
       map (\<lambda>z. (slice_at st' (z + 1), z)) (rev [(if b < m then m - 1 else m)..a - 1]) \<and>
     (\<forall>i. 0 \<le> i \<and> \<not> (m \<le> i \<and> i < a) \<longrightarrow> slice_at st' i = slice_at st i) \<and>
     (\<forall>z. m \<le> z \<and> z < a \<longrightarrow>
        slice_at st' z = orc (slice_at st' (z + 1)) z \<and>
        \<not> stops thr (slice_at st' (z + 1)) (slice_at st' z)) \<and>
     (b < m \<longrightarrow> stops thr (slice_at st' m) (orc (slice_at st' m) (m - 1))) \<and>
     progress_bar st' =
       map_option (\<lambda>p. p + (if b < m then nat (a - m) else nat (a - b) - 1)) (progress_bar st)"

section \<open>Notions for one pair of annotated slices\<close>

definition union_prompt :: "run_state \<Rightarrow> int \<Rightarrow> int \<Rightarrow> mask" where
  "union_prompt st a b = of_bools (logical_or (eq1 (slice_at st a)) (eq1 (slice_at st b)))"

text \<open>
  What every branch of the loop body does: the slices strictly between the pair are each
  written once, each after one call of the oracle for that slice, and no other slice
  changes.
\<close>

definition filled_between :: "int \<Rightarrow> int \<Rightarrow> run_state \<Rightarrow> run_state \<Rightarrow> bool" where
  "filled_between z_start z_stop st st' \<longleftrightarrow>
     length (seg st') = length (seg st) \<and>
     (\<exists>cs. writes st' = writes st @ map snd cs \<and> calls st' = calls st @ cs \<and>
        distinct (map snd cs) \<and> set (map snd cs) = {z_start<..<z_stop}) \<and>
     (\<forall>i. 0 \<le> i \<and> \<not> (z_start < i \<and> i < z_stop) \<longrightarrow> slice_at st' i = slice_at st i)"

section \<open>Notions for the loop over consecutive annotated slices\<close>

text \<open>
  \<open>gaps xs\<close> is the set of slice indices strictly between two consecutive entries of
  \<open>xs\<close>, the pairs being those of \<open>zip(xs[:-1], xs[1:])\<close>.
\<close>

definition gaps :: "int list \<Rightarrow> int set" where
  "gaps xs = (\<Union>(a, b)\<in>set (zip (butlast xs) (tl xs)). {a<..<b})"

definition filled_pairs :: "int list \<Rightarrow> run_state \<Rightarrow> run_state \<Rightarrow> bool" where
  "filled_pairs xs st st' \<longleftrightarrow>
     length (seg st') = length (seg st) \<and>
     (\<exists>cs. writes st' = writes st @ map snd cs \<and> calls st' = calls st @ cs \<and>
        distinct (map snd cs) \<and> set (map snd cs) = gaps xs) \<and>
     (\<forall>i. 0 \<le> i \<and> i \<notin> gaps xs \<longrightarrow> slice_at st' i = slice_at st i)"

section \<open>The data model of the annotated slices\<close>

text \<open>
  \<open>annotated xs st\<close> is the data model's invariant for the annotated slices of a
  propagation call: the list is not empty, strictly ascending, and every index is a slice
  of the volume.
\<close>

definition annotated :: "int list \<Rightarrow> run_state \<Rightarrow> bool" where
  "annotated xs st \<longleftrightarrow>
     xs \<noteq> [] \<and> sorted_wrt (<) xs \<and> (\<forall>x\<in>set xs. 0 \<le> x \<and> x < int (length (seg st)))"

section \<open>The overlap metric as sets of pixels\<close>

text \<open>
  The specification's words for the metric: the foreground of a mask is the set of its
  positions with label 1, and \<open>iou\<close> is the size of the intersection of two
  foregrounds over the size of their union plus \<open>eps\<close>. \<open>iou\<close> follows the
  specification; \<open>compute_iou\<close> above follows the code. \<open>same_shape\<close> is the
  identical shape the specification asks of the two masks.
\<close>

definition fg :: "mask \<Rightarrow> (nat \<times> nat) set" where
  "fg m = {(r, c). r < length m \<and> c < length (m ! r) \<and> m ! r ! c = 1}"




section \<open>The embedding cache (util.py)\<close>

text \<open>
  An embedding is the array the encoder returns for one image, kept as the list of its
  values; \<open>np.count_nonzero\<close> counts the values that are not zero. A size is the pair
  \<open>original_size\<close> or \<open>input_size\<close> of the predictor.
\<close>

type_synonym embedding = "real list"

type_synonym size = "nat \<times> nat"

definition count_nonzero :: "embedding \<Rightarrow> nat" where
  "count_nonzero emb = length (filter (\<lambda>v. v \<noteq> 0) emb)"

text \<open>
  The encoder is external. \<open>get_image_embedding p img\<close> is what
  \<open>predictor.get_image_embedding()\<close> returns after \<open>predictor.set_image(img)\<close>, and
  \<open>pred_original_size\<close>, \<open>pred_input_size\<close> are the two sizes the predictor holds
  then. \<open>to_image\<close> is \<open>_to_image\<close> (None where it raises ValueError) and
  \<open>grey_to_rgb\<close> the stacking of a slice into three channels; both prepare the image
  and are taken as parameters.
\<close>

record 'i sam =
  to_image :: "'i \<Rightarrow> 'i option"
  grey_to_rgb :: "'i \<Rightarrow> 'i"
  get_image_embedding :: "'i \<Rightarrow> embedding"
  pred_original_size :: "'i \<Rightarrow> size"
  pred_input_size :: "'i \<Rightarrow> size"

text \<open>
  The zarr container at \<open>save_path\<close>: its attributes (a value can be null), and the
  dataset \<open>features\<close> when it exists, one chunk for each index of its first axis. Two
  history variables go with it: the images the encoder was run on, and the attribute keys
  that were assigned, both in order.
\<close>

record 'i world =
  attrs :: "(string \<times> size option) list"
  features :: "embedding list option"
  encoder_calls :: "'i list"
  attr_writes :: "string list"

datatype store_error =
  MissingKey | ChunkOutOfRange | NoneNotSubscriptable | DatasetExists | InvalidImage
  | InvalidDimensionality

text \<open>The dictionary a call returns: the features and the two sizes.\<close>

record image_embeddings =
  r_features :: "embedding list option"
  r_input_size :: "size option"
  r_original_size :: "size option"

definition set_attr :: "string \<Rightarrow> size option \<Rightarrow> 'i world \<Rightarrow> 'i world" where
  "set_attr k v w =
     w\<lparr>attrs := AList.update k v (attrs w), attr_writes := attr_writes w @ [k]\<rparr>"

definition has_attr :: "string \<Rightarrow> 'i world \<Rightarrow> bool" where
  "has_attr k w \<longleftrightarrow> map_of (attrs w) k \<noteq> None"

text \<open>
  The branch both persisted functions take when \<open>input_size\<close> is among the attributes
  (lines 139 to 141 and 188 to 190): the dataset and the two attributes are read, and a
  missing one is a KeyError.
\<close>

definition load_stored :: "'i world \<Rightarrow> store_error + (embedding list \<times> size option \<times> size option)" where
  "load_stored w =
     (case features w of
        None \<Rightarrow> Inl MissingKey
      | Some fs \<Rightarrow>
          (case map_of (attrs w) ''original_size'' of
             None \<Rightarrow> Inl MissingKey
           | Some original_size \<Rightarrow>
               (case map_of (attrs w) ''input_size'' of
                  None \<Rightarrow> Inl MissingKey
                | Some input_size \<Rightarrow> Inr (fs, original_size, input_size))))"

text \<open>\<open>_precompute_2d\<close> (lines 136 to 154). The dataset of a 2D image has one chunk.\<close>

definition precompute_2d :: "'i sam \<Rightarrow> 'i \<Rightarrow> 'i world \<Rightarrow> (store_error + image_embeddings) \<times> 'i world" where
  "precompute_2d p input w =
     (if has_attr ''input_size'' w
      then (case load_stored w of
              Inl e \<Rightarrow> (Inl e, w)
            | Inr (fs, original_size, input_size) \<Rightarrow>
                (Inr \<lparr>r_features = Some fs, r_input_size = input_size,
                      r_original_size = original_size\<rparr>, w))
      else (case to_image p input of
              None \<Rightarrow> (Inl InvalidImage, w)
            | Some img \<Rightarrow>
                (let emb = get_image_embedding p img;
                     w1 = w\<lparr>encoder_calls := encoder_calls w @ [img]\<rparr>;
                     original_size = Some (pred_original_size p img);
                     input_size = Some (pred_input_size p img)
                 in case features w1 of
                      Some fs \<Rightarrow> (Inl DatasetExists, w1)
                    | None \<Rightarrow>
                        (let w2 = w1\<lparr>features := Some [emb]\<rparr>;
                             w3 = set_attr ''input_size'' input_size w2;
                             w4 = set_attr ''original_size'' original_size w3
                         in (Inr \<lparr>r_features = Some [emb], r_input_size = input_size,
                                  r_original_size = original_size\<rparr>, w4)))))"

text \<open>
  The slice loop of \<open>_precompute_3d\<close> (lines 196 to 212), over the slices from index
  \<open>z\<close> on. \<open>n\<close> is \<open>input.shape[0]\<close>. The local variable \<open>features\<close> of the code is
  the dataset of the container whenever that exists, so the model reads the container.
  The loop carries the pair \<open>(original_size, input_size)\<close>.
\<close>

fun precompute_3d_loop ::
  "'i sam \<Rightarrow> nat \<Rightarrow> nat \<Rightarrow> 'i list \<Rightarrow> size option \<times> size option \<Rightarrow> 'i world
     \<Rightarrow> store_error option \<times> (size option \<times> size option) \<times> 'i world" where
  "precompute_3d_loop p n z [] sizes w = (None, sizes, w)"
| "precompute_3d_loop p n z (z_slice # rest) sizes w =
     (case (case features w of
              None \<Rightarrow> Inr False
            | Some fs \<Rightarrow> if z < length fs then Inr (count_nonzero (fs ! z) \<noteq> 0)
                         else Inl ChunkOutOfRange) of
        Inl e \<Rightarrow> (Some e, sizes, w)
      | Inr True \<Rightarrow> precompute_3d_loop p n (Suc z) rest sizes w
      | Inr False \<Rightarrow>
          (let img = grey_to_rgb p z_slice;
               emb = get_image_embedding p img;
               w1 = w\<lparr>encoder_calls := encoder_calls w @ [img]\<rparr>;
               sizes1 = (Some (pred_original_size p img), Some (pred_input_size p img));
               fs = (case features w1 of
                       None \<Rightarrow> replicate n (replicate (length emb) 0)
                     | Some fs \<Rightarrow> fs)
           in if z < length fs
              then precompute_3d_loop p n (Suc z) rest sizes1 (w1\<lparr>features := Some (fs[z := emb])\<rparr>)
              else (Some ChunkOutOfRange, sizes1, w1\<lparr>features := Some fs\<rparr>)))"

text \<open>\<open>_precompute_3d\<close> (lines 185 to 223).\<close>

definition precompute_3d ::
  "'i sam \<Rightarrow> 'i list \<Rightarrow> bool \<Rightarrow> 'i world \<Rightarrow> (store_error + image_embeddings) \<times> 'i world" where
  "precompute_3d p input lazy_loading w =
     (if has_attr ''input_size'' w
      then (case load_stored w of
              Inl e \<Rightarrow> (Inl e, w)
            | Inr (fs, original_size, input_size) \<Rightarrow>
                (Inr \<lparr>r_features = Some fs, r_input_size = input_size,
                      r_original_size = original_size\<rparr>, w))
      else (case precompute_3d_loop p (length input) 0 input (None, None) w of
              (Some e, sizes, w1) \<Rightarrow> (Inl e, w1)
            | (None, (original_size, input_size), w1) \<Rightarrow>
                (let w2 = set_attr ''input_size'' input_size w1;
                     w3 = set_attr ''original_size'' original_size w2
                 in if \<not> lazy_loading \<and> features w3 = None
                    then (Inl NoneNotSubscriptable, w3)
                    else (Inr \<lparr>r_features = features w3, r_input_size = input_size,
                               r_original_size = original_size\<rparr>, w3))))"

text \<open>
  \<open>precompute_image_embeddings\<close> (lines 226 to 253) with a \<open>save_path\<close>. The input
  array is given by its number of dimensions, by itself as one image, and by its slices
  along the first axis.
\<close>

record 'i ndarray =
  ndim :: nat
  as_image :: 'i
  z_slices :: "'i list"

definition precompute_image_embeddings ::
  "'i sam \<Rightarrow> 'i ndarray \<Rightarrow> bool \<Rightarrow> nat option \<Rightarrow> 'i world
     \<Rightarrow> (store_error + image_embeddings) \<times> 'i world" where
  "precompute_image_embeddings p input lazy_loading ndim_arg w =
     (let nd = (case ndim_arg of None \<Rightarrow> ndim input | Some n \<Rightarrow> n)
      in if nd = 2 then precompute_2d p (as_image input) w
         else if nd = 3 then precompute_3d p (z_slices input) lazy_loading w
         else (Inl InvalidDimensionality, w))"

section \<open>Notions for the slice loop of the cache\<close>

text \<open>
  \<open>embed_slice p s\<close> is the embedding the encoder gives for slice \<open>s\<close>, and
  \<open>slice_sizes p img\<close> the pair \<open>(original_size, input_size)\<close> the predictor holds
  for an image.
\<close>

definition embed_slice :: "'i sam \<Rightarrow> 'i \<Rightarrow> embedding" where
  "embed_slice p s = get_image_embedding p (grey_to_rgb p s)"

definition slice_sizes :: "'i sam \<Rightarrow> 'i \<Rightarrow> size option \<times> size option" where
  "slice_sizes p img = (Some (pred_original_size p img), Some (pred_input_size p img))"

text \<open>
  The data model asks of the encoder that all slices of one volume get the same pair of
  sizes: \<open>uniform_sizes p input\<close> says so for the slices of \<open>input\<close>.
\<close>

definition uniform_sizes :: "'i sam \<Rightarrow> 'i list \<Rightarrow> bool" where
  "uniform_sizes p input \<longleftrightarrow>
     (\<forall>x\<in>set input. \<forall>y\<in>set input.
        slice_sizes p (grey_to_rgb p x) = slice_sizes p (grey_to_rgb p y))"

text \<open>
  \<open>after_slices p input k\<close> is the dataset after the loop has gone through the first
  \<open>k\<close> slices on a container that had none: absent for \<open>k = 0\<close>, otherwise the
  embeddings of the first \<open>k\<close> slices followed by chunks of zeros.
\<close>

definition zero_chunk :: "'i sam \<Rightarrow> 'i list \<Rightarrow> embedding" where
  "zero_chunk p input = replicate (length (embed_slice p (hd input))) 0"

definition after_slices :: "'i sam \<Rightarrow> 'i list \<Rightarrow> nat \<Rightarrow> embedding list option" where
  "after_slices p input k =
     (if k = 0 then None
      else Some (map (embed_slice p) (take k input) @
                 replicate (length input - k) (zero_chunk p input)))"

section \<open>Notions for an interrupted computation\<close>

text \<open>
  \<open>interrupted p input k w0\<close> is the container left behind when the process ends after
  the loop has gone through \<open>k\<close> slices: the attributes are not written yet.
  \<open>chunk_done w z\<close> says that the stored data of chunk \<open>z\<close> is not all zero.
\<close>

definition interrupted :: "'i sam \<Rightarrow> 'i list \<Rightarrow> nat \<Rightarrow> 'i world \<Rightarrow> 'i world" where
  "interrupted p input k w0 =
     snd (snd (precompute_3d_loop p (length input) 0 (take k input) (None, None) w0))"

definition chunk_done :: "'i world \<Rightarrow> nat \<Rightarrow> bool" where
  "chunk_done w z \<longleftrightarrow>
     (case features w of None \<Rightarrow> False
      | Some fs \<Rightarrow> z < length fs \<and> count_nonzero (fs ! z) \<noteq> 0)"

section \<open>Example inputs of the cache\<close>

text \<open>
  An encoder over slices that are numbers: slice \<open>s\<close> embeds to \<open>[s, 0]\<close> and has
  the sizes \<open>(s, s)\<close> and \<open>(s, 2 s)\<close>. \<open>fresh\<close> is a new container.
\<close>

definition enc :: "nat sam" where
  "enc = \<lparr>to_image = Some, grey_to_rgb = (\<lambda>s. s), get_image_embedding = (\<lambda>s. [real s, 0]),
          pred_original_size = (\<lambda>s. (s, s)), pred_input_size = (\<lambda>s. (s, 2 * s))\<rparr>"

definition fresh :: "nat world" where
  "fresh = \<lparr>attrs = [], features = None, encoder_calls = [], attr_writes = []\<rparr>"

text \<open>A stack of three slices, and the container after its embeddings are computed.\<close>

definition stack3 :: "nat ndarray" where
  "stack3 = \<lparr>ndim = 3, as_image = 0, z_slices = [1, 2, 3]\<rparr>"

definition stored3 :: "nat world" where
  "stored3 = \<lparr>attrs = [(''input_size'', Some (3, 6)), (''original_size'', Some (3, 3))],
              features = Some [[1, 0], [2, 0], [3, 0]], encoder_calls = [1, 2, 3],
              attr_writes = [''input_size'', ''original_size'']\<rparr>"

text \<open>
  An encoder that gives every slice the sizes \<open>(2, 3)\<close> and \<open>(4, 6)\<close>, and the
  container after the embeddings of the slices 1, 2, 3 are computed with it.
\<close>

definition enc_fixed :: "nat sam" where
  "enc_fixed = \<lparr>to_image = Some, grey_to_rgb = (\<lambda>s. s), get_image_embedding = (\<lambda>s. [real s, 0]),
          pred_original_size = (\<lambda>s. (2, 3)), pred_input_size = (\<lambda>s. (4, 6))\<rparr>"

definition stored_fixed :: "nat world" where
  "stored_fixed = \<lparr>attrs = [(''input_size'', Some (4, 6)), (''original_size'', Some (2, 3))],
              features = Some [[1, 0], [2, 0], [3, 0]], encoder_calls = [1, 2, 3],
              attr_writes = [''input_size'', ''original_size'']\<rparr>"

section \<open>Basic facts about the engine\<close>

lemma seg_update_progress: "seg (update_progress st) = seg st"
  by (simp add: update_progress_def split: option.splits)

lemma setitem_None_length:
  "setitem z m st = (None, st2) \<Longrightarrow>
     length (seg st2) = length (seg st) \<and> - int (length (seg st)) \<le> z \<and> z < int (length (seg st))"
  by (auto simp: setitem_def norm_index_def split: option.splits if_splits)

section \<open>Unfolding the engine and the examples\<close>

lemmas engine_defs =
  segment_volume_def segment_between_def segment_combined_def segment_range_def
  and_then_def getitem_def norm_index_def call_oracle_def setitem_def update_progress_def
  compute_iou_def eq1_def logical_and_def logical_or_def count_true_def of_bools_def eps_def

lemmas example_defs = mA_def mB_def mZ_def stub_def volume_def vol10_def fading_def

section \<open>Indexing inside the volume\<close>

lemma norm_index_in_range: "0 \<le> i \<Longrightarrow> i < int n \<Longrightarrow> norm_index n i = Some (nat i)"
  by (simp add: norm_index_def)

lemma getitem_in_range:
  "0 \<le> i \<Longrightarrow> i < int (length xs) \<Longrightarrow> getitem xs i = Some (xs ! nat i)"
  by (simp add: getitem_def norm_index_in_range)

lemma setitem_in_range:
  "0 \<le> z \<Longrightarrow> z < int (length (seg st)) \<Longrightarrow>
     setitem z m st = (None, st\<lparr>seg := (seg st)[nat z := m], writes := writes st @ [z]\<rparr>)"
  by (simp add: setitem_def norm_index_in_range)

lemma prompt_pixel:
  assumes "r < length a" "length b = length a" "c < length (a ! r)"
    "length (b ! r) = length (a ! r)"
  shows "of_bools (logical_or (eq1 a) (eq1 b)) ! r ! c =
           (if a ! r ! c = 1 \<or> b ! r ! c = 1 then 1 else 0)"
  using assms by (simp add: of_bools_def logical_or_def eq1_def)

lemma segment_combined_in_range:
  assumes "0 \<le> a" "a < int (length (seg st))" "0 \<le> b" "b < int (length (seg st))"
    "0 \<le> z" "z < int (length (seg st))"
  shows "segment_combined orc a b z st =
     (None, update_progress
        (st\<lparr>calls := calls st @
               [(of_bools (logical_or (eq1 (seg st ! nat a)) (eq1 (seg st ! nat b))), z)],
            seg := (seg st)[nat z :=
               orc (of_bools (logical_or (eq1 (seg st ! nat a)) (eq1 (seg st ! nat b)))) z],
            writes := writes st @ [z]\<rparr>))"
  using assms
  by (simp add: segment_combined_def getitem_in_range call_oracle_def setitem_in_range
      and_then_def Let_def)

section \<open>One walk of \<open>segment_range\<close>\<close>

text \<open>
  The loop is unfolded by hand below, one iteration at a time, so its defining equation is
  taken out of the simplifier's rules.
\<close>

declare segment_range_loop.simps [simp del]

lemma loop_unfold:
  assumes "0 \<le> z - inc" "z - inc < int (length (seg st))" "0 \<le> z" "z < int (length (seg st))"
  shows "segment_range_loop orc z_stop inc crit thr z st =
     (if stops thr (slice_at st (z - inc)) (orc (slice_at st (z - inc)) z)
      then (None, st\<lparr>calls := calls st @ [(slice_at st (z - inc), z)]\<rparr>)
      else if crit (z + inc) z_stop then (None, step_written orc inc z st)
      else if inc = 0 then (Some Stalled, update_progress (step_written orc inc z st))
      else segment_range_loop orc z_stop inc crit thr (z + inc)
             (update_progress (step_written orc inc z st)))"
  using assms
  by (subst segment_range_loop.simps)
     (simp add: getitem_in_range call_oracle_def setitem_in_range stops_def slice_at_def
        step_written_def)

lemma progress_bar_update_progress:
  "progress_bar (update_progress st) = map_option (\<lambda>p. p + 1) (progress_bar st)"
  by (simp add: update_progress_def split: option.splits)

lemma writes_update_progress: "writes (update_progress st) = writes st"
  by (simp add: update_progress_def split: option.splits)

lemma calls_update_progress: "calls (update_progress st) = calls st"
  by (simp add: update_progress_def split: option.splits)

lemma slice_at_update_progress: "slice_at (update_progress st) i = slice_at st i"
  by (simp add: slice_at_def seg_update_progress)

lemma slice_at_calls: "slice_at (st\<lparr>calls := c\<rparr>) i = slice_at st i"
  by (simp add: slice_at_def)

lemma slice_at_step_written:
  assumes "0 \<le> z" "z < int (length (seg st))" "0 \<le> i"
  shows "slice_at (step_written orc inc z st) i =
           (if i = z then orc (slice_at st (z - inc)) z else slice_at st i)"
proof (cases "i = z")
  case True
  with assms show ?thesis by (simp add: slice_at_def step_written_def)
next
  case False
  with assms have "nat z \<noteq> nat i" by auto
  with False show ?thesis by (simp add: slice_at_def step_written_def)
qed

lemma step_written_fields:
  "length (seg (step_written orc inc z st)) = length (seg st)"
  "writes (step_written orc inc z st) = writes st @ [z]"
  "calls (step_written orc inc z st) = calls st @ [(slice_at st (z - inc), z)]"
  "progress_bar (step_written orc inc z st) = progress_bar st"
  by (simp_all add: step_written_def)

lemma walked_stop:
  assumes "0 < n" "stops thr (slice_at st (z - inc)) (orc (slice_at st (z - inc)) z)"
  shows "walked orc thr inc z n 0 st (st\<lparr>calls := calls st @ [(slice_at st (z - inc), z)]\<rparr>)"
  using assms by (simp add: walked_def option.map_ident slice_at_calls)

lemma walked_last:
  assumes "0 \<le> z" "z < int (length (seg st))" "0 \<le> z - inc" "inc \<noteq> 0"
    "\<not> stops thr (slice_at st (z - inc)) (orc (slice_at st (z - inc)) z)"
  shows "walked orc thr inc z 1 1 st (step_written orc inc z st)"
  using assms
  by (simp add: walked_def option.map_ident step_written_fields slice_at_step_written)

lemma walked_step:
  assumes rng: "0 \<le> z" "z < int (length (seg st))" "0 \<le> z - inc"
    and inc: "inc = 1 \<or> inc = - 1"
    and ns: "\<not> stops thr (slice_at st (z - inc)) (orc (slice_at st (z - inc)) z)"
    and n: "0 < n"
    and w: "walked orc thr inc (z + inc) n m (update_progress (step_written orc inc z st)) st'"
  shows "walked orc thr inc z (Suc n) (Suc m) st st'"
proof -
  let ?st3 = "update_progress (step_written orc inc z st)"
  have shift: "\<And>k. z + int (Suc k) * inc = z + inc + int k * inc"
    by (simp add: algebra_simps)
  have ne1: "\<And>k. z \<noteq> z + inc + int k * inc"
    using inc by auto
  have ne2: "\<And>k. z - inc \<noteq> z + inc + int k * inc"
    using inc by auto
  from w have mn: "m \<le> n"
    and len: "length (seg st') = length (seg ?st3)"
    and wr: "writes st' = writes ?st3 @ map (\<lambda>k. z + inc + int k * inc) [0..<m]"
    and cl: "calls st' = calls ?st3 @
       map (\<lambda>k. (slice_at st' (z + inc + int k * inc - inc), z + inc + int k * inc))
         [0..<(if m < n then Suc m else m)]"
    and fr: "\<And>i. 0 \<le> i \<Longrightarrow> (\<forall>k<m. i \<noteq> z + inc + int k * inc) \<Longrightarrow> slice_at st' i = slice_at ?st3 i"
    and ct: "\<And>k. k < m \<Longrightarrow> slice_at st' (z + inc + int k * inc) =
               orc (slice_at st' (z + inc + int k * inc - inc)) (z + inc + int k * inc) \<and>
            \<not> stops thr (slice_at st' (z + inc + int k * inc - inc)) (slice_at st' (z + inc + int k * inc))"
    and sp: "m < n \<Longrightarrow> stops thr (slice_at st' (z + inc + int m * inc - inc))
                  (orc (slice_at st' (z + inc + int m * inc - inc)) (z + inc + int m * inc))"
    and pr: "progress_bar st' = map_option (\<lambda>p. p + (if m < n then m else n - 1)) (progress_bar ?st3)"
    unfolding walked_def by blast+
  have at_z: "slice_at st' z = orc (slice_at st (z - inc)) z"
    using fr [of z] rng ne1 by (simp add: slice_at_update_progress slice_at_step_written)
  have at_prev: "slice_at st' (z - inc) = slice_at st (z - inc)"
    using fr [of "z - inc"] rng ne2 inc
    by (auto simp add: slice_at_update_progress slice_at_step_written)
  have c1: "Suc m \<le> Suc n" using mn by simp
  have c2: "length (seg st') = length (seg st)"
    using len by (simp add: seg_update_progress step_written_fields)
  have c3: "writes st' = writes st @ map (\<lambda>k. z + int k * inc) [0..<Suc m]"
    unfolding map_upt_Suc using wr
    by (simp add: writes_update_progress step_written_fields shift del: of_nat_Suc)
  have mapS: "\<And>N. map (\<lambda>k. (slice_at st' (z + int k * inc - inc), z + int k * inc)) [0..<Suc N] =
      (slice_at st' (z - inc), z) #
      map (\<lambda>k. (slice_at st' (z + inc + int k * inc - inc), z + inc + int k * inc)) [0..<N]"
    by (simp add: map_upt_Suc shift del: upt_Suc of_nat_Suc)
  have c4: "calls st' = calls st @
       map (\<lambda>k. (slice_at st' (z + int k * inc - inc), z + int k * inc))
         [0..<(if Suc m < Suc n then Suc (Suc m) else Suc m)]"
  proof (cases "m < n")
    case True
    then show ?thesis
      using cl at_prev mapS [of "Suc m"]
      by (simp add: calls_update_progress step_written_fields del: of_nat_Suc upt_Suc)
  next
    case False
    then show ?thesis
      using cl at_prev mapS [of m]
      by (simp add: calls_update_progress step_written_fields del: of_nat_Suc upt_Suc)
  qed
  have c5: "\<forall>i. 0 \<le> i \<and> (\<forall>k<Suc m. i \<noteq> z + int k * inc) \<longrightarrow> slice_at st' i = slice_at st i"
  proof (intro allI impI, elim conjE)
    fix i :: int assume i: "0 \<le> i" and nk: "\<forall>k<Suc m. i \<noteq> z + int k * inc"
    from nk have "i \<noteq> z" by (auto dest: spec [of _ 0])
    moreover have "\<forall>k<m. i \<noteq> z + inc + int k * inc"
    proof (intro allI impI)
      fix k assume "k < m"
      then have "Suc k < Suc m" by simp
      with nk have "i \<noteq> z + int (Suc k) * inc" by blast
      then show "i \<noteq> z + inc + int k * inc" unfolding shift .
    qed
    ultimately show "slice_at st' i = slice_at st i"
      using fr [of i] i rng by (simp add: slice_at_update_progress slice_at_step_written)
  qed
  have c6: "\<forall>k<Suc m. slice_at st' (z + int k * inc) =
               orc (slice_at st' (z + int k * inc - inc)) (z + int k * inc) \<and>
            \<not> stops thr (slice_at st' (z + int k * inc - inc)) (slice_at st' (z + int k * inc))"
  proof (intro allI impI)
    fix k assume k: "k < Suc m"
    show "slice_at st' (z + int k * inc) =
               orc (slice_at st' (z + int k * inc - inc)) (z + int k * inc) \<and>
            \<not> stops thr (slice_at st' (z + int k * inc - inc)) (slice_at st' (z + int k * inc))"
    proof (cases k)
      case 0
      then show ?thesis using at_z at_prev ns by simp
    next
      case (Suc j)
      with k have "j < m" by simp
      from ct [OF this] show ?thesis unfolding Suc shift .
    qed
  qed
  have c7: "Suc m < Suc n \<longrightarrow> stops thr (slice_at st' (z + int (Suc m) * inc - inc))
                  (orc (slice_at st' (z + int (Suc m) * inc - inc)) (z + int (Suc m) * inc))"
    using sp unfolding shift by simp
  have c8: "progress_bar st' = map_option (\<lambda>p. p + (if Suc m < Suc n then Suc m else Suc n - 1)) (progress_bar st)"
    using pr n
    by (cases "progress_bar st")
       (auto simp add: progress_bar_update_progress step_written_fields)
  show ?thesis
    unfolding walked_def using c1 c2 c3 c4 c5 c6 c7 c8 by blast
qed

lemma segment_range_loop_walk:
  assumes inc: "inc = 1 \<or> inc = - 1"
  shows "0 < n \<Longrightarrow>
    \<forall>k\<le>n. 0 \<le> z + int k * inc - inc \<and> z + int k * inc - inc < int (length (seg st)) \<Longrightarrow>
    \<forall>k. 0 < k \<and> k < n \<longrightarrow> \<not> crit (z + int k * inc) z_stop \<Longrightarrow>
    crit (z + int n * inc) z_stop \<Longrightarrow>
    \<exists>m st'. segment_range_loop orc z_stop inc crit thr z st = (None, st') \<and>
            walked orc thr inc z n m st st'"
proof (induction n arbitrary: z st)
  case 0
  then show ?case by simp
next
  case (Suc n)
  let ?p = "slice_at st (z - inc)"
  let ?st3 = "update_progress (step_written orc inc z st)"
  have shift: "\<And>k. z + int (Suc k) * inc = z + inc + int k * inc"
    by (simp add: algebra_simps)
  from Suc.prems(2) [rule_format, of 0]
  have r0: "0 \<le> z - inc" "z - inc < int (length (seg st))" by simp_all
  from Suc.prems(2) [rule_format, of 1]
  have r1: "0 \<le> z" "z < int (length (seg st))" by simp_all
  from inc have inc0: "inc \<noteq> 0" by auto
  note unf = loop_unfold [OF r0 r1, of orc z_stop crit thr]
  show ?case
  proof (cases "stops thr ?p (orc ?p z)")
    case True
    with unf walked_stop [of "Suc n" thr st z inc orc] show ?thesis by auto
  next
    case ns: False
    show ?thesis
    proof (cases "n = 0")
      case True
      with Suc.prems(4) have "crit (z + inc) z_stop" by simp
      with unf ns have "segment_range_loop orc z_stop inc crit thr z st =
          (None, step_written orc inc z st)" by simp
      moreover have "walked orc thr inc z 1 1 st (step_written orc inc z st)"
        using r1 r0(1) inc0 ns by (rule walked_last)
      then have "walked orc thr inc z (Suc n) 1 st (step_written orc inc z st)"
        using True by simp
      ultimately show ?thesis by blast
    next
      case False
      then have n: "0 < n" by simp
      from Suc.prems(3) [rule_format, of 1] n have "\<not> crit (z + inc) z_stop" by simp
      with unf ns inc0 have eq: "segment_range_loop orc z_stop inc crit thr z st =
          segment_range_loop orc z_stop inc crit thr (z + inc) ?st3" by simp
      have len: "length (seg ?st3) = length (seg st)"
        by (simp add: seg_update_progress step_written_fields)
      have rng': "\<forall>k\<le>n. 0 \<le> z + inc + int k * inc - inc \<and>
                    z + inc + int k * inc - inc < int (length (seg ?st3))"
      proof (intro allI impI)
        fix k assume "k \<le> n"
        then have "Suc k \<le> Suc n" by simp
        from Suc.prems(2) [rule_format, OF this]
        show "0 \<le> z + inc + int k * inc - inc \<and>
                    z + inc + int k * inc - inc < int (length (seg ?st3))"
          unfolding shift len .
      qed
      have nocrit': "\<forall>k. 0 < k \<and> k < n \<longrightarrow> \<not> crit (z + inc + int k * inc) z_stop"
      proof (intro allI impI)
        fix k assume "0 < k \<and> k < n"
        then have "0 < Suc k \<and> Suc k < Suc n" by simp
        from Suc.prems(3) [rule_format, OF this]
        show "\<not> crit (z + inc + int k * inc) z_stop" unfolding shift .
      qed
      have crit': "crit (z + inc + int n * inc) z_stop"
        using Suc.prems(4) unfolding shift .
      from Suc.IH [OF n rng' nocrit' crit']
      obtain m st' where
        run: "segment_range_loop orc z_stop inc crit thr (z + inc) ?st3 = (None, st')"
        and w: "walked orc thr inc (z + inc) n m ?st3 st'" by blast
      have "walked orc thr inc z (Suc n) (Suc m) st st'"
        using r1 r0(1) inc ns n w by (rule walked_step)
      with run eq show ?thesis by auto
    qed
  qed
qed

section \<open>Walks up and down, by slice index\<close>

lemma map_upt_up: "map (\<lambda>k. f (a + int k)) [0..<n] = map f [a..a + int n - 1]"
proof (induction n)
  case 0
  then show ?case by simp
next
  case (Suc n)
  have "[a..a + int (Suc n) - 1] = [a..a + int n - 1] @ [a + int n]"
    using upto_rec2 [of a "a + int n"] by simp
  with Suc show ?case by simp
qed

lemma map_upt_down: "map (\<lambda>k. f (b - int k)) [0..<n] = map f (rev [b - int n + 1..b])"
proof (induction n)
  case 0
  then show ?case by simp
next
  case (Suc n)
  have "[b - int (Suc n) + 1..b] = (b - int n) # [b - int n + 1..b]"
    using upto_rec1 [of "b - int n" b] by simp
  with Suc show ?case by simp
qed

lemma walk_up:
  assumes a: "0 \<le> a" "a < b" "b < int (length (seg st))"
    and nocrit: "\<forall>z. a + 1 < z \<and> z \<le> b \<longrightarrow> \<not> crit z z_stop"
    and crit: "crit (b + 1) z_stop"
  shows "\<exists>m st'. segment_range orc a z_stop 1 crit thr st = (None, st') \<and>
           walked_up orc thr a b m st st'"
proof -
  define n where "n = nat (b - a)"
  have n: "0 < n" "int n = b - a" using a by (simp_all add: n_def)
  have rng: "\<forall>k\<le>n. 0 \<le> a + 1 + int k * 1 - 1 \<and> a + 1 + int k * 1 - 1 < int (length (seg st))"
    using a n by auto
  have nc: "\<forall>k. 0 < k \<and> k < n \<longrightarrow> \<not> crit (a + 1 + int k * 1) z_stop"
    using nocrit n by auto
  have c: "crit (a + 1 + int n * 1) z_stop"
    using crit n by (simp add: add.commute)
  from segment_range_loop_walk [of 1 n "a + 1" st crit z_stop orc thr, OF _ n(1) rng nc c]
  obtain k st' where run: "segment_range_loop orc z_stop 1 crit thr (a + 1) st = (None, st')"
    and w: "walked orc thr 1 (a + 1) n k st st'" by auto
  define m where "m = a + int k"
  note w' = w [unfolded walked_def, simplified]
  from w' have kn: "k \<le> n"
    and len: "length (seg st') = length (seg st)"
    and wr: "writes st' = writes st @ map (\<lambda>j. a + 1 + int j) [0..<k]"
    and cl: "calls st' = calls st @
       map (\<lambda>j. (slice_at st' (a + int j), a + 1 + int j)) [0..<(if k < n then Suc k else k)]"
    and fr: "\<And>i. 0 \<le> i \<Longrightarrow> (\<forall>j<k. i \<noteq> a + 1 + int j) \<Longrightarrow> slice_at st' i = slice_at st i"
    and ct: "\<And>j. j < k \<Longrightarrow> slice_at st' (a + 1 + int j) =
               orc (slice_at st' (a + int j)) (a + 1 + int j) \<and>
            \<not> stops thr (slice_at st' (a + int j)) (slice_at st' (a + 1 + int j))"
    and sp: "k < n \<Longrightarrow> stops thr (slice_at st' (a + int k))
                  (orc (slice_at st' (a + int k)) (a + 1 + int k))"
    and pr: "progress_bar st' = map_option (\<lambda>p. p + (if k < n then k else n - 1)) (progress_bar st)"
    by blast+
  have mapc: "\<And>N. map (\<lambda>j. (slice_at st' (a + int j), a + 1 + int j)) [0..<N] =
      map (\<lambda>z. (slice_at st' (z - 1), z)) [a + 1..a + int N]"
    using map_upt_up [of "\<lambda>z. (slice_at st' (z - 1), z)" "a + 1"] by simp
  have km: "k < n \<longleftrightarrow> m < b" using n by (auto simp: m_def)
  have c1: "a \<le> m" "m \<le> b" using kn n by (auto simp: m_def)
  have c3: "writes st' = writes st @ [a + 1..m]"
    using wr map_upt_up [of "\<lambda>z. z" "a + 1" k] by (simp add: m_def)
  have c4: "calls st' = calls st @
       map (\<lambda>z. (slice_at st' (z - 1), z)) [a + 1..(if m < b then m + 1 else m)]"
    using cl unfolding mapc km by (simp add: m_def ac_simps)
  have c5: "\<forall>i. 0 \<le> i \<and> \<not> (a < i \<and> i \<le> m) \<longrightarrow> slice_at st' i = slice_at st i"
    using fr by (auto simp: m_def)
  have c6: "\<forall>z. a < z \<and> z \<le> m \<longrightarrow>
        slice_at st' z = orc (slice_at st' (z - 1)) z \<and>
        \<not> stops thr (slice_at st' (z - 1)) (slice_at st' z)"
  proof (intro allI impI)
    fix z assume z: "a < z \<and> z \<le> m"
    define j where "j = nat (z - a - 1)"
    from z have j: "j < k" "a + 1 + int j = z" "a + int j = z - 1"
      by (auto simp: m_def j_def)
    from ct [OF j(1)]
    show "slice_at st' z = orc (slice_at st' (z - 1)) z \<and>
        \<not> stops thr (slice_at st' (z - 1)) (slice_at st' z)" unfolding j(2) j(3) .
  qed
  have c7: "m < b \<longrightarrow> stops thr (slice_at st' m) (orc (slice_at st' m) (m + 1))"
    using sp km by (simp add: m_def add.commute add.left_commute)
  have c8: "progress_bar st' =
       map_option (\<lambda>p. p + (if m < b then nat (m - a) else nat (b - a) - 1)) (progress_bar st)"
    using pr km by (simp add: m_def n_def)
  have "walked_up orc thr a b m st st'"
    unfolding walked_up_def using c1 len c3 c4 c5 c6 c7 c8 by blast
  with run show ?thesis by (auto simp: segment_range_def)
qed

lemma walk_down:
  assumes a: "0 \<le> b" "b < a" "a < int (length (seg st))"
    and nocrit: "\<forall>z. b \<le> z \<and> z < a - 1 \<longrightarrow> \<not> crit z z_stop"
    and crit: "crit (b - 1) z_stop"
  shows "\<exists>m st'. segment_range orc a z_stop (- 1) crit thr st = (None, st') \<and>
           walked_down orc thr a b m st st'"
proof -
  define n where "n = nat (a - b)"
  have n: "0 < n" "int n = a - b" using a by (simp_all add: n_def)
  have rng: "\<forall>k\<le>n. 0 \<le> a - 1 + int k * (- 1) - (- 1) \<and>
                a - 1 + int k * (- 1) - (- 1) < int (length (seg st))"
    using a n by auto
  have nc: "\<forall>k. 0 < k \<and> k < n \<longrightarrow> \<not> crit (a - 1 + int k * (- 1)) z_stop"
    using nocrit n by auto
  have e: "a - 1 + int n * (- 1) = b - 1" using n by simp
  have c: "crit (a - 1 + int n * (- 1)) z_stop"
    unfolding e by (rule crit)
  from segment_range_loop_walk [of "- 1" n "a - 1" st crit z_stop orc thr, OF _ n(1) rng nc c]
  obtain k st' where run: "segment_range_loop orc z_stop (- 1) crit thr (a - 1) st = (None, st')"
    and w: "walked orc thr (- 1) (a - 1) n k st st'" by auto
  define m where "m = a - int k"
  note w' = w [unfolded walked_def, simplified]
  from w' have kn: "k \<le> n"
    and len: "length (seg st') = length (seg st)"
    and wr: "writes st' = writes st @ map (\<lambda>j. a - 1 - int j) [0..<k]"
    and cl: "calls st' = calls st @
       map (\<lambda>j. (slice_at st' (a - int j), a - 1 - int j)) [0..<(if k < n then Suc k else k)]"
    and fr: "\<And>i. 0 \<le> i \<Longrightarrow> (\<forall>j<k. i \<noteq> a - 1 - int j) \<Longrightarrow> slice_at st' i = slice_at st i"
    and ct: "\<And>j. j < k \<Longrightarrow> slice_at st' (a - 1 - int j) =
               orc (slice_at st' (a - int j)) (a - 1 - int j) \<and>
            \<not> stops thr (slice_at st' (a - int j)) (slice_at st' (a - 1 - int j))"
    and sp: "k < n \<Longrightarrow> stops thr (slice_at st' (a - int k))
                  (orc (slice_at st' (a - int k)) (a - 1 - int k))"
    and pr: "progress_bar st' = map_option (\<lambda>p. p + (if k < n then k else n - 1)) (progress_bar st)"
    by blast+
  have mapc: "\<And>N. map (\<lambda>j. (slice_at st' (a - int j), a - 1 - int j)) [0..<N] =
      map (\<lambda>z. (slice_at st' (z + 1), z)) (rev [a - int N..a - 1])"
    using map_upt_down [of "\<lambda>z. (slice_at st' (z + 1), z)" "a - 1"] by simp
  have km: "k < n \<longleftrightarrow> b < m" using n by (auto simp: m_def)
  have c1: "b \<le> m" "m \<le> a" using kn n by (auto simp: m_def)
  have c3: "writes st' = writes st @ rev [m..a - 1]"
    using wr map_upt_down [of "\<lambda>z. z" "a - 1" k] by (simp add: m_def)
  have c4: "calls st' = calls st @
       map (\<lambda>z. (slice_at st' (z + 1), z)) (rev [(if b < m then m - 1 else m)..a - 1])"
    using cl unfolding mapc km by (simp add: m_def algebra_simps)
  have c5: "\<forall>i. 0 \<le> i \<and> \<not> (m \<le> i \<and> i < a) \<longrightarrow> slice_at st' i = slice_at st i"
    using fr by (auto simp: m_def)
  have c6: "\<forall>z. m \<le> z \<and> z < a \<longrightarrow>
        slice_at st' z = orc (slice_at st' (z + 1)) z \<and>
        \<not> stops thr (slice_at st' (z + 1)) (slice_at st' z)"
  proof (intro allI impI)
    fix z assume z: "m \<le> z \<and> z < a"
    define j where "j = nat (a - 1 - z)"
    from z have j: "j < k" "a - 1 - int j = z" "a - int j = z + 1"
      by (auto simp: m_def j_def)
    from ct [OF j(1)]
    show "slice_at st' z = orc (slice_at st' (z + 1)) z \<and>
        \<not> stops thr (slice_at st' (z + 1)) (slice_at st' z)" unfolding j(2) j(3) .
  qed
  have c7: "b < m \<longrightarrow> stops thr (slice_at st' m) (orc (slice_at st' m) (m - 1))"
    using sp km by (simp add: m_def algebra_simps)
  have c8: "progress_bar st' =
       map_option (\<lambda>p. p + (if b < m then nat (a - m) else nat (a - b) - 1)) (progress_bar st)"
    using pr km by (simp add: m_def n_def)
  have "walked_down orc thr a b m st st'"
    unfolding walked_down_def using c1 len c3 c4 c5 c6 c7 c8 by blast
  with run show ?thesis by (auto simp: segment_range_def)
qed

section \<open>The loop body for one pair of annotated slices\<close>

lemma walked_up_None: "walked_up orc None a b m st st' \<Longrightarrow> m = b"
  by (auto simp: walked_up_def stops_def)

lemma walked_down_None: "walked_down orc None a b m st st' \<Longrightarrow> m = b"
  by (auto simp: walked_down_def stops_def)

lemma segment_combined_post:
  assumes "0 \<le> a" "a < int (length (seg st))" "0 \<le> b" "b < int (length (seg st))"
    "0 \<le> z" "z < int (length (seg st))"
  shows "\<exists>st'. segment_combined orc a b z st = (None, st') \<and>
     length (seg st') = length (seg st) \<and>
     writes st' = writes st @ [z] \<and>
     calls st' = calls st @ [(union_prompt st a b, z)] \<and>
     (\<forall>i. 0 \<le> i \<longrightarrow> slice_at st' i =
        (if i = z then orc (union_prompt st a b) z else slice_at st i)) \<and>
     progress_bar st' = map_option (\<lambda>p. p + 1) (progress_bar st)"
proof -
  let ?st' = "update_progress
        (st\<lparr>calls := calls st @ [(union_prompt st a b, z)],
            seg := (seg st)[nat z := orc (union_prompt st a b) z],
            writes := writes st @ [z]\<rparr>)"
  have run: "segment_combined orc a b z st = (None, ?st')"
    using segment_combined_in_range [OF assms, of orc]
    by (simp add: union_prompt_def slice_at_def)
  have sl: "\<forall>i. 0 \<le> i \<longrightarrow> slice_at ?st' i =
        (if i = z then orc (union_prompt st a b) z else slice_at st i)"
  proof (intro allI impI)
    fix i :: int assume i: "0 \<le> i"
    show "slice_at ?st' i = (if i = z then orc (union_prompt st a b) z else slice_at st i)"
    proof (cases "i = z")
      case True
      with assms show ?thesis by (simp add: slice_at_def seg_update_progress)
    next
      case False
      with assms i have "nat z \<noteq> nat i" by auto
      with False show ?thesis by (simp add: slice_at_def seg_update_progress)
    qed
  qed
  have "length (seg ?st') = length (seg st)" "writes ?st' = writes st @ [z]"
    "calls ?st' = calls st @ [(union_prompt st a b, z)]"
    "progress_bar ?st' = map_option (\<lambda>p. p + 1) (progress_bar st)"
    by (simp_all add: seg_update_progress writes_update_progress calls_update_progress
        progress_bar_update_progress)
  with run sl show ?thesis by blast
qed

lemma between_even:
  assumes rng: "0 \<le> z_start" "z_stop < int (length (seg st))"
    and h: "z_stop = z_start + 2 * h" "2 \<le> h"
    and flags: "\<not> (z_start = z0 \<and> stop_lower)" "\<not> (z_stop = z1 \<and> stop_upper)"
  shows "\<exists>st'. segment_between orc z0 z1 stop_lower stop_upper z_start z_stop st = (None, st') \<and>
     length (seg st') = length (seg st) \<and>
     writes st' = writes st @
        [z_start + 1..z_start + h - 1] @ rev [z_start + h + 1..z_stop - 1] @ [z_start + h] \<and>
     calls st' = calls st @
        map (\<lambda>z. (slice_at st' (z - 1), z)) [z_start + 1..z_start + h - 1] @
        map (\<lambda>z. (slice_at st' (z + 1), z)) (rev [z_start + h + 1..z_stop - 1]) @
        [(union_prompt st' (z_start + h - 1) (z_start + h + 1), z_start + h)] \<and>
     (\<forall>z. z_start < z \<and> z < z_start + h \<longrightarrow> slice_at st' z = orc (slice_at st' (z - 1)) z) \<and>
     (\<forall>z. z_start + h < z \<and> z < z_stop \<longrightarrow> slice_at st' z = orc (slice_at st' (z + 1)) z) \<and>
     slice_at st' (z_start + h) =
        orc (union_prompt st' (z_start + h - 1) (z_start + h + 1)) (z_start + h) \<and>
     (\<forall>i. 0 \<le> i \<and> \<not> (z_start < i \<and> i < z_stop) \<longrightarrow> slice_at st' i = slice_at st i) \<and>
     progress_bar st' = map_option (\<lambda>p. p + nat (z_stop - z_start - 3)) (progress_bar st)"
proof -
  define mid where "mid = z_start + h"
  have mid: "(z_start + z_stop) div 2 = mid" "(z_stop - z_start) mod 2 = 0"
    "z_stop - z_start \<noteq> 1" "z_stop - z_start \<noteq> 2"
    using h by (auto simp: mid_def)
  \<comment> \<open>the walk up from \<open>z_start\<close>\<close>
  have "\<exists>m s1. segment_range orc z_start mid 1 (\<ge>) None st = (None, s1) \<and>
           walked_up orc None z_start (mid - 1) m st s1"
    using rng h by (intro walk_up) (auto simp: mid_def)
  then obtain s1 where run1: "segment_range orc z_start mid 1 (\<ge>) None st = (None, s1)"
    and w1: "walked_up orc None z_start (mid - 1) (mid - 1) st s1"
    using walked_up_None by blast
  from w1 have len1: "length (seg s1) = length (seg st)"
    and wr1: "writes s1 = writes st @ [z_start + 1..mid - 1]"
    and cl1: "calls s1 = calls st @ map (\<lambda>z. (slice_at s1 (z - 1), z)) [z_start + 1..mid - 1]"
    and fr1: "\<And>i. 0 \<le> i \<Longrightarrow> \<not> (z_start < i \<and> i \<le> mid - 1) \<Longrightarrow> slice_at s1 i = slice_at st i"
    and ct1: "\<And>z. z_start < z \<Longrightarrow> z \<le> mid - 1 \<Longrightarrow> slice_at s1 z = orc (slice_at s1 (z - 1)) z"
    and pr1: "progress_bar s1 = map_option (\<lambda>p. p + (nat (mid - 1 - z_start) - 1)) (progress_bar st)"
    by (simp_all add: walked_up_def)
  \<comment> \<open>the walk down from \<open>z_stop\<close>\<close>
  have "\<exists>m s2. segment_range orc z_stop mid (- 1) (\<le>) None s1 = (None, s2) \<and>
           walked_down orc None z_stop (mid + 1) m s1 s2"
    using rng h len1 by (intro walk_down) (auto simp: mid_def)
  then obtain s2 where run2: "segment_range orc z_stop mid (- 1) (\<le>) None s1 = (None, s2)"
    and w2: "walked_down orc None z_stop (mid + 1) (mid + 1) s1 s2"
    using walked_down_None by blast
  from w2 have len2: "length (seg s2) = length (seg s1)"
    and wr2: "writes s2 = writes s1 @ rev [mid + 1..z_stop - 1]"
    and cl2: "calls s2 = calls s1 @ map (\<lambda>z. (slice_at s2 (z + 1), z)) (rev [mid + 1..z_stop - 1])"
    and fr2: "\<And>i. 0 \<le> i \<Longrightarrow> \<not> (mid + 1 \<le> i \<and> i < z_stop) \<Longrightarrow> slice_at s2 i = slice_at s1 i"
    and ct2: "\<And>z. mid + 1 \<le> z \<Longrightarrow> z < z_stop \<Longrightarrow> slice_at s2 z = orc (slice_at s2 (z + 1)) z"
    and pr2: "progress_bar s2 = map_option (\<lambda>p. p + (nat (z_stop - (mid + 1)) - 1)) (progress_bar s1)"
    by (simp_all add: walked_down_def)
  \<comment> \<open>the union step for the middle slice\<close>
  have "\<exists>s3. segment_combined orc (mid - 1) (mid + 1) mid s2 = (None, s3) \<and>
     length (seg s3) = length (seg s2) \<and>
     writes s3 = writes s2 @ [mid] \<and>
     calls s3 = calls s2 @ [(union_prompt s2 (mid - 1) (mid + 1), mid)] \<and>
     (\<forall>i. 0 \<le> i \<longrightarrow> slice_at s3 i =
        (if i = mid then orc (union_prompt s2 (mid - 1) (mid + 1)) mid else slice_at s2 i)) \<and>
     progress_bar s3 = map_option (\<lambda>p. p + 1) (progress_bar s2)"
    using rng h len1 len2 by (intro segment_combined_post) (auto simp: mid_def)
  then obtain s3 where run3: "segment_combined orc (mid - 1) (mid + 1) mid s2 = (None, s3)"
    and len3: "length (seg s3) = length (seg s2)"
    and wr3: "writes s3 = writes s2 @ [mid]"
    and cl3: "calls s3 = calls s2 @ [(union_prompt s2 (mid - 1) (mid + 1), mid)]"
    and sl3: "\<And>i. 0 \<le> i \<Longrightarrow> slice_at s3 i =
        (if i = mid then orc (union_prompt s2 (mid - 1) (mid + 1)) mid else slice_at s2 i)"
    and pr3: "progress_bar s3 = map_option (\<lambda>p. p + 1) (progress_bar s2)"
    by blast
  have run: "segment_between orc z0 z1 stop_lower stop_upper z_start z_stop st = (None, s3)"
    using flags mid run1 run2 run3 by (auto simp add: segment_between_def and_then_def Let_def)
  \<comment> \<open>the slices in terms of the final state\<close>
  have low: "\<And>i. 0 \<le> i \<Longrightarrow> i < mid \<Longrightarrow> slice_at s3 i = slice_at s1 i"
    using sl3 fr2 by simp
  have high: "\<And>i. mid < i \<Longrightarrow> slice_at s3 i = slice_at s2 i"
    using sl3 rng h by (simp add: mid_def)
  have up: "union_prompt s2 (mid - 1) (mid + 1) = union_prompt s3 (mid - 1) (mid + 1)"
    using sl3 [of "mid - 1"] sl3 [of "mid + 1"] rng h by (simp add: union_prompt_def mid_def)
  have m1: "map (\<lambda>z. (slice_at s1 (z - 1), z)) [z_start + 1..mid - 1] =
            map (\<lambda>z. (slice_at s3 (z - 1), z)) [z_start + 1..mid - 1]"
    using rng by (intro map_cong) (auto simp: low)
  have m2: "map (\<lambda>z. (slice_at s2 (z + 1), z)) (rev [mid + 1..z_stop - 1]) =
            map (\<lambda>z. (slice_at s3 (z + 1), z)) (rev [mid + 1..z_stop - 1])"
    by (intro map_cong) (auto simp: high)
  have c_len: "length (seg s3) = length (seg st)" using len1 len2 len3 by simp
  have c_wr: "writes s3 = writes st @
        [z_start + 1..mid - 1] @ rev [mid + 1..z_stop - 1] @ [mid]"
    using wr1 wr2 wr3 by simp
  have c_cl: "calls s3 = calls st @
        map (\<lambda>z. (slice_at s3 (z - 1), z)) [z_start + 1..mid - 1] @
        map (\<lambda>z. (slice_at s3 (z + 1), z)) (rev [mid + 1..z_stop - 1]) @
        [(union_prompt s3 (mid - 1) (mid + 1), mid)]"
    using cl1 cl2 cl3 m1 m2 up by simp
  have c_lo: "\<forall>z. z_start < z \<and> z < mid \<longrightarrow> slice_at s3 z = orc (slice_at s3 (z - 1)) z"
    using ct1 low rng by auto
  have c_hi: "\<forall>z. mid < z \<and> z < z_stop \<longrightarrow> slice_at s3 z = orc (slice_at s3 (z + 1)) z"
    using ct2 high by auto
  have c_mid: "slice_at s3 mid = orc (union_prompt s3 (mid - 1) (mid + 1)) mid"
    using sl3 [of mid] up rng h by (simp add: mid_def)
  have c_fr: "\<forall>i. 0 \<le> i \<and> \<not> (z_start < i \<and> i < z_stop) \<longrightarrow> slice_at s3 i = slice_at st i"
    using sl3 fr2 fr1 h by (auto simp: mid_def)
  have c_pr: "progress_bar s3 = map_option (\<lambda>p. p + nat (z_stop - z_start - 3)) (progress_bar st)"
  proof -
    have "nat (mid - 1 - z_start) - 1 + (nat (z_stop - (mid + 1)) - 1) + 1 = nat (z_stop - z_start - 3)"
      using h by (auto simp: mid_def)
    then show ?thesis
      using pr1 pr2 pr3 by (cases "progress_bar st") auto
  qed
  show ?thesis
    using run c_len c_wr c_cl c_lo c_hi c_mid c_fr c_pr unfolding mid_def by blast
qed

lemma between_odd:
  assumes rng: "0 \<le> z_start" "z_stop < int (length (seg st))"
    and h: "z_stop = z_start + 2 * h + 1" "1 \<le> h"
    and flags: "\<not> (z_start = z0 \<and> stop_lower)" "\<not> (z_stop = z1 \<and> stop_upper)"
  shows "\<exists>st'. segment_between orc z0 z1 stop_lower stop_upper z_start z_stop st = (None, st') \<and>
     length (seg st') = length (seg st) \<and>
     writes st' = writes st @ [z_start + 1..z_start + h] @ rev [z_start + h + 1..z_stop - 1] \<and>
     calls st' = calls st @
        map (\<lambda>z. (slice_at st' (z - 1), z)) [z_start + 1..z_start + h] @
        map (\<lambda>z. (slice_at st' (z + 1), z)) (rev [z_start + h + 1..z_stop - 1]) \<and>
     (\<forall>z. z_start < z \<and> z \<le> z_start + h \<longrightarrow> slice_at st' z = orc (slice_at st' (z - 1)) z) \<and>
     (\<forall>z. z_start + h < z \<and> z < z_stop \<longrightarrow> slice_at st' z = orc (slice_at st' (z + 1)) z) \<and>
     (\<forall>i. 0 \<le> i \<and> \<not> (z_start < i \<and> i < z_stop) \<longrightarrow> slice_at st' i = slice_at st i) \<and>
     progress_bar st' = map_option (\<lambda>p. p + nat (z_stop - z_start - 3)) (progress_bar st)"
proof -
  define mid where "mid = z_start + h"
  have mid: "(z_start + z_stop) div 2 = mid" "(z_stop - z_start) mod 2 \<noteq> 0"
    "z_stop - z_start \<noteq> 1" "z_stop - z_start \<noteq> 2"
    using h by (auto simp: mid_def)
  have "\<exists>m s1. segment_range orc z_start mid 1 (>) None st = (None, s1) \<and>
           walked_up orc None z_start mid m st s1"
    using rng h by (intro walk_up) (auto simp: mid_def)
  then obtain s1 where run1: "segment_range orc z_start mid 1 (>) None st = (None, s1)"
    and w1: "walked_up orc None z_start mid mid st s1"
    using walked_up_None by blast
  from w1 have len1: "length (seg s1) = length (seg st)"
    and wr1: "writes s1 = writes st @ [z_start + 1..mid]"
    and cl1: "calls s1 = calls st @ map (\<lambda>z. (slice_at s1 (z - 1), z)) [z_start + 1..mid]"
    and fr1: "\<And>i. 0 \<le> i \<Longrightarrow> \<not> (z_start < i \<and> i \<le> mid) \<Longrightarrow> slice_at s1 i = slice_at st i"
    and ct1: "\<And>z. z_start < z \<Longrightarrow> z \<le> mid \<Longrightarrow> slice_at s1 z = orc (slice_at s1 (z - 1)) z"
    and pr1: "progress_bar s1 = map_option (\<lambda>p. p + (nat (mid - z_start) - 1)) (progress_bar st)"
    by (simp_all add: walked_up_def)
  have "\<exists>m s2. segment_range orc z_stop mid (- 1) (\<le>) None s1 = (None, s2) \<and>
           walked_down orc None z_stop (mid + 1) m s1 s2"
    using rng h len1 by (intro walk_down) (auto simp: mid_def)
  then obtain s2 where run2: "segment_range orc z_stop mid (- 1) (\<le>) None s1 = (None, s2)"
    and w2: "walked_down orc None z_stop (mid + 1) (mid + 1) s1 s2"
    using walked_down_None by blast
  from w2 have len2: "length (seg s2) = length (seg s1)"
    and wr2: "writes s2 = writes s1 @ rev [mid + 1..z_stop - 1]"
    and cl2: "calls s2 = calls s1 @ map (\<lambda>z. (slice_at s2 (z + 1), z)) (rev [mid + 1..z_stop - 1])"
    and fr2: "\<And>i. 0 \<le> i \<Longrightarrow> \<not> (mid + 1 \<le> i \<and> i < z_stop) \<Longrightarrow> slice_at s2 i = slice_at s1 i"
    and ct2: "\<And>z. mid + 1 \<le> z \<Longrightarrow> z < z_stop \<Longrightarrow> slice_at s2 z = orc (slice_at s2 (z + 1)) z"
    and pr2: "progress_bar s2 = map_option (\<lambda>p. p + (nat (z_stop - (mid + 1)) - 1)) (progress_bar s1)"
    by (simp_all add: walked_down_def)
  have run: "segment_between orc z0 z1 stop_lower stop_upper z_start z_stop st = (None, s2)"
    using flags mid run1 run2 by (auto simp add: segment_between_def and_then_def Let_def)
  have low: "\<And>i. 0 \<le> i \<Longrightarrow> i \<le> mid \<Longrightarrow> slice_at s2 i = slice_at s1 i"
    using fr2 by simp
  have m1: "map (\<lambda>z. (slice_at s1 (z - 1), z)) [z_start + 1..mid] =
            map (\<lambda>z. (slice_at s2 (z - 1), z)) [z_start + 1..mid]"
    using rng by (intro map_cong) (auto simp: low)
  have c_len: "length (seg s2) = length (seg st)" using len1 len2 by simp
  have c_wr: "writes s2 = writes st @ [z_start + 1..mid] @ rev [mid + 1..z_stop - 1]"
    using wr1 wr2 by simp
  have c_cl: "calls s2 = calls st @
        map (\<lambda>z. (slice_at s2 (z - 1), z)) [z_start + 1..mid] @
        map (\<lambda>z. (slice_at s2 (z + 1), z)) (rev [mid + 1..z_stop - 1])"
    using cl1 cl2 m1 by simp
  have c_lo: "\<forall>z. z_start < z \<and> z \<le> mid \<longrightarrow> slice_at s2 z = orc (slice_at s2 (z - 1)) z"
    using ct1 low rng by auto
  have c_hi: "\<forall>z. mid < z \<and> z < z_stop \<longrightarrow> slice_at s2 z = orc (slice_at s2 (z + 1)) z"
    using ct2 by auto
  have c_fr: "\<forall>i. 0 \<le> i \<and> \<not> (z_start < i \<and> i < z_stop) \<longrightarrow> slice_at s2 i = slice_at st i"
    using fr2 fr1 h by (auto simp: mid_def)
  have c_pr: "progress_bar s2 = map_option (\<lambda>p. p + nat (z_stop - z_start - 3)) (progress_bar st)"
  proof -
    have "nat (mid - z_start) - 1 + (nat (z_stop - (mid + 1)) - 1) = nat (z_stop - z_start - 3)"
      using h by (auto simp: mid_def)
    then show ?thesis
      using pr1 pr2 by (cases "progress_bar st") auto
  qed
  show ?thesis
    using run c_len c_wr c_cl c_lo c_hi c_fr c_pr unfolding mid_def by blast
qed

lemma between_stop_lower:
  assumes rng: "0 \<le> z_start" "z_start + 1 < z_stop" "z_stop < int (length (seg st))"
    and flags: "z_start = z0 \<and> stop_lower"
  shows "\<exists>st'. segment_between orc z0 z1 stop_lower stop_upper z_start z_stop st = (None, st') \<and>
     walked_down orc None z_stop (z_start + 1) (z_start + 1) st st'"
proof -
  have "\<exists>m st'. segment_range orc z_stop z_start (- 1) (\<le>) None st = (None, st') \<and>
           walked_down orc None z_stop (z_start + 1) m st st'"
    using rng by (intro walk_down) auto
  then obtain st' where "segment_range orc z_stop z_start (- 1) (\<le>) None st = (None, st')"
    and "walked_down orc None z_stop (z_start + 1) (z_start + 1) st st'"
    using walked_down_None by blast
  with flags rng show ?thesis
    by (auto simp add: segment_between_def Let_def)
qed

lemma between_stop_upper:
  assumes rng: "0 \<le> z_start" "z_start + 1 < z_stop" "z_stop < int (length (seg st))"
    and flags: "\<not> (z_start = z0 \<and> stop_lower)" "z_stop = z1 \<and> stop_upper"
  shows "\<exists>st'. segment_between orc z0 z1 stop_lower stop_upper z_start z_stop st = (None, st') \<and>
     walked_up orc None z_start (z_stop - 1) (z_stop - 1) st st'"
proof -
  have "\<exists>m st'. segment_range orc z_start z_stop 1 (\<ge>) None st = (None, st') \<and>
           walked_up orc None z_start (z_stop - 1) m st st'"
    using rng by (intro walk_up) auto
  then obtain st' where "segment_range orc z_start z_stop 1 (\<ge>) None st = (None, st')"
    and "walked_up orc None z_start (z_stop - 1) (z_stop - 1) st st'"
    using walked_up_None by blast
  with flags rng show ?thesis
    by (auto simp add: segment_between_def Let_def)
qed

lemma filled_betweenI:
  assumes "length (seg st') = length (seg st)"
    and "writes st' = writes st @ map snd cs" "calls st' = calls st @ cs"
    and "distinct (map snd cs)" "set (map snd cs) = {z_start<..<z_stop}"
    and "\<forall>i. 0 \<le> i \<and> \<not> (z_start < i \<and> i < z_stop) \<longrightarrow> slice_at st' i = slice_at st i"
  shows "filled_between z_start z_stop st st'"
  unfolding filled_between_def using assms by blast

lemma map_snd_prompts: "map snd (map (\<lambda>z. (f z, z)) zs) = zs"
  by (induction zs) simp_all

lemma between_post:
  assumes rng: "0 \<le> z_start" "z_start < z_stop" "z_stop < int (length (seg st))"
  shows "\<exists>st'. segment_between orc z0 z1 stop_lower stop_upper z_start z_stop st = (None, st') \<and>
     filled_between z_start z_stop st st'"
proof -
  consider (adjacent) "z_stop - z_start = 1"
    | (lower) "z_stop - z_start \<noteq> 1" "z_start = z0 \<and> stop_lower"
    | (upper) "z_stop - z_start \<noteq> 1" "\<not> (z_start = z0 \<and> stop_lower)" "z_stop = z1 \<and> stop_upper"
    | (two) "z_stop - z_start = 2" "\<not> (z_start = z0 \<and> stop_lower)" "\<not> (z_stop = z1 \<and> stop_upper)"
    | (even) "2 < z_stop - z_start" "(z_stop - z_start) mod 2 = 0"
        "\<not> (z_start = z0 \<and> stop_lower)" "\<not> (z_stop = z1 \<and> stop_upper)"
    | (odd) "2 < z_stop - z_start" "(z_stop - z_start) mod 2 \<noteq> 0"
        "\<not> (z_start = z0 \<and> stop_lower)" "\<not> (z_stop = z1 \<and> stop_upper)"
    using rng by fastforce
  then show ?thesis
  proof cases
    case adjacent
    then have "{z_start<..<z_stop} = {}" by auto
    then have "filled_between z_start z_stop st st"
      by (intro filled_betweenI [where cs = "[]"]) simp_all
    with adjacent show ?thesis
      by (simp add: segment_between_def)
  next
    case lower
    with rng have r: "z_start + 1 < z_stop" by simp
    from between_stop_lower [OF rng(1) r rng(3) lower(2), of orc z1 stop_upper]
    obtain st' where run: "segment_between orc z0 z1 stop_lower stop_upper z_start z_stop st = (None, st')"
      and w: "walked_down orc None z_stop (z_start + 1) (z_start + 1) st st'" by blast
    let ?cs = "map (\<lambda>z. (slice_at st' (z + 1), z)) (rev [z_start + 1..z_stop - 1])"
    have s: "set (rev [z_start + 1..z_stop - 1]) = {z_start<..<z_stop}" by auto
    from w have "length (seg st') = length (seg st)"
      "writes st' = writes st @ map snd ?cs" "calls st' = calls st @ ?cs"
      "\<forall>i. 0 \<le> i \<and> \<not> (z_start < i \<and> i < z_stop) \<longrightarrow> slice_at st' i = slice_at st i"
      unfolding walked_down_def map_snd_prompts by auto
    moreover have "distinct (map snd ?cs)" "set (map snd ?cs) = {z_start<..<z_stop}"
      unfolding map_snd_prompts using s by simp_all
    ultimately have "filled_between z_start z_stop st st'"
      by (intro filled_betweenI [where cs = ?cs])
    with run show ?thesis by blast
  next
    case upper
    with rng have r: "z_start + 1 < z_stop" by simp
    from between_stop_upper [OF rng(1) r rng(3) upper(2) upper(3), of orc]
    obtain st' where run: "segment_between orc z0 z1 stop_lower stop_upper z_start z_stop st = (None, st')"
      and w: "walked_up orc None z_start (z_stop - 1) (z_stop - 1) st st'" by blast
    let ?cs = "map (\<lambda>z. (slice_at st' (z - 1), z)) [z_start + 1..z_stop - 1]"
    have s: "set [z_start + 1..z_stop - 1] = {z_start<..<z_stop}" by auto
    from w have "length (seg st') = length (seg st)"
      "writes st' = writes st @ map snd ?cs" "calls st' = calls st @ ?cs"
      "\<forall>i. 0 \<le> i \<and> \<not> (z_start < i \<and> i < z_stop) \<longrightarrow> slice_at st' i = slice_at st i"
      unfolding walked_up_def map_snd_prompts by auto
    moreover have "distinct (map snd ?cs)" "set (map snd ?cs) = {z_start<..<z_stop}"
      unfolding map_snd_prompts using s by simp_all
    ultimately have "filled_between z_start z_stop st st'"
      by (intro filled_betweenI [where cs = ?cs])
    with run show ?thesis by blast
  next
    case two
    from two(1) rng have r: "z_start < int (length (seg st))" "0 \<le> z_stop" "0 \<le> z_start + 1"
      "z_start + 1 < int (length (seg st))" by simp_all
    from segment_combined_post [OF rng(1) r(1) r(2) rng(3) r(3) r(4), of orc]
    obtain st' where run: "segment_combined orc z_start z_stop (z_start + 1) st = (None, st')"
      and len: "length (seg st') = length (seg st)"
      and wr: "writes st' = writes st @ [z_start + 1]"
      and cl: "calls st' = calls st @ [(union_prompt st z_start z_stop, z_start + 1)]"
      and sl: "\<And>i. 0 \<le> i \<Longrightarrow> slice_at st' i =
        (if i = z_start + 1 then orc (union_prompt st z_start z_stop) (z_start + 1)
         else slice_at st i)" by blast
    have "set [z_start + 1] = {z_start<..<z_stop}" using two(1) by auto
    with len wr cl sl have "filled_between z_start z_stop st st'"
      by (intro filled_betweenI [where cs = "[(union_prompt st z_start z_stop, z_start + 1)]"])
         auto
    moreover have "segment_between orc z0 z1 stop_lower stop_upper z_start z_stop st = (None, st')"
      using two run by (auto simp: segment_between_def Let_def)
    ultimately show ?thesis by blast
  next
    case even
    define h where "h = (z_stop - z_start) div 2"
    from even(1,2) have h: "z_stop = z_start + 2 * h" "2 \<le> h"
      unfolding h_def by presburger+
    from between_even [OF rng(1) rng(3) h even(3) even(4), of orc]
    obtain st' where run: "segment_between orc z0 z1 stop_lower stop_upper z_start z_stop st = (None, st')"
      and len: "length (seg st') = length (seg st)"
      and wr: "writes st' = writes st @
        [z_start + 1..z_start + h - 1] @ rev [z_start + h + 1..z_stop - 1] @ [z_start + h]"
      and cl: "calls st' = calls st @
        map (\<lambda>z. (slice_at st' (z - 1), z)) [z_start + 1..z_start + h - 1] @
        map (\<lambda>z. (slice_at st' (z + 1), z)) (rev [z_start + h + 1..z_stop - 1]) @
        [(union_prompt st' (z_start + h - 1) (z_start + h + 1), z_start + h)]"
      and fr: "\<forall>i. 0 \<le> i \<and> \<not> (z_start < i \<and> i < z_stop) \<longrightarrow> slice_at st' i = slice_at st i"
      by blast
    let ?cs = "map (\<lambda>z. (slice_at st' (z - 1), z)) [z_start + 1..z_start + h - 1] @
        map (\<lambda>z. (slice_at st' (z + 1), z)) (rev [z_start + h + 1..z_stop - 1]) @
        [(union_prompt st' (z_start + h - 1) (z_start + h + 1), z_start + h)]"
    have ms: "map snd ?cs =
        [z_start + 1..z_start + h - 1] @ rev [z_start + h + 1..z_stop - 1] @ [z_start + h]"
      by (simp add: map_snd_prompts del: map_map)
    have "distinct (map snd ?cs)" "set (map snd ?cs) = {z_start<..<z_stop}"
      unfolding ms using h by auto
    with len wr cl fr ms have "filled_between z_start z_stop st st'"
      by (intro filled_betweenI [where cs = ?cs]) simp_all
    with run show ?thesis by blast
  next
    case odd
    define h where "h = (z_stop - z_start) div 2"
    from odd(1,2) have h: "z_stop = z_start + 2 * h + 1" "1 \<le> h"
      unfolding h_def by presburger+
    from between_odd [OF rng(1) rng(3) h odd(3) odd(4), of orc]
    obtain st' where run: "segment_between orc z0 z1 stop_lower stop_upper z_start z_stop st = (None, st')"
      and len: "length (seg st') = length (seg st)"
      and wr: "writes st' = writes st @ [z_start + 1..z_start + h] @ rev [z_start + h + 1..z_stop - 1]"
      and cl: "calls st' = calls st @
        map (\<lambda>z. (slice_at st' (z - 1), z)) [z_start + 1..z_start + h] @
        map (\<lambda>z. (slice_at st' (z + 1), z)) (rev [z_start + h + 1..z_stop - 1])"
      and fr: "\<forall>i. 0 \<le> i \<and> \<not> (z_start < i \<and> i < z_stop) \<longrightarrow> slice_at st' i = slice_at st i"
      by blast
    let ?cs = "map (\<lambda>z. (slice_at st' (z - 1), z)) [z_start + 1..z_start + h] @
        map (\<lambda>z. (slice_at st' (z + 1), z)) (rev [z_start + h + 1..z_stop - 1])"
    have ms: "map snd ?cs = [z_start + 1..z_start + h] @ rev [z_start + h + 1..z_stop - 1]"
      by (simp add: map_snd_prompts del: map_map)
    have "distinct (map snd ?cs)" "set (map snd ?cs) = {z_start<..<z_stop}"
      unfolding ms using h by auto
    with len wr cl fr ms have "filled_between z_start z_stop st st'"
      by (intro filled_betweenI [where cs = ?cs]) simp_all
    with run show ?thesis by blast
  qed
qed

section \<open>The loop over consecutive annotated slices\<close>

lemma gaps_single: "gaps [x] = {}"
  by (simp add: gaps_def)

lemma gaps_Cons: "gaps (x # y # ys) = {x<..<y} \<union> gaps (y # ys)"
  by (simp add: gaps_def)

lemma gaps_above: "sorted_wrt (<) (y # ys) \<Longrightarrow> z \<in> gaps (y # ys) \<Longrightarrow> y < z"
proof (induction ys arbitrary: y)
  case Nil
  then show ?case by (simp add: gaps_single)
next
  case (Cons a ys)
  from Cons.prems(2) have "z \<in> {y<..<a} \<or> z \<in> gaps (a # ys)" by (simp add: gaps_Cons)
  then show ?case
  proof
    assume "z \<in> {y<..<a}" then show ?thesis by simp
  next
    assume "z \<in> gaps (a # ys)"
    with Cons.IH [of a] Cons.prems(1) have "a < z" by simp
    with Cons.prems(1) show ?thesis by simp
  qed
qed

lemma gaps_char:
  "sorted_wrt (<) (x # xs) \<Longrightarrow>
     gaps (x # xs) = {z. x < z \<and> z < last (x # xs) \<and> z \<notin> set (x # xs)}"
proof (induction xs arbitrary: x)
  case Nil
  then show ?case by (auto simp: gaps_single)
next
  case (Cons y ys)
  from Cons.prems have s: "sorted_wrt (<) (y # ys)" "x < y" "\<forall>a\<in>set ys. y < a" by simp_all
  have last_ge: "y \<le> last (y # ys)"
    using s(3) by (cases ys) (auto simp: less_imp_le)
  have "gaps (x # y # ys) = {x<..<y} \<union> {z. y < z \<and> z < last (y # ys) \<and> z \<notin> set (y # ys)}"
    using Cons.IH [OF s(1)] by (simp add: gaps_Cons)
  also have "\<dots> = {z. x < z \<and> z < last (x # y # ys) \<and> z \<notin> set (x # y # ys)}"
    using s last_ge by (auto simp del: last.simps simp add: last_ConsR)
  finally show ?case .
qed

lemma gaps_index:
  assumes "z \<in> gaps xs"
  shows "\<exists>i. Suc i < length xs \<and> xs ! i < z \<and> z < xs ! Suc i"
proof -
  from assms obtain a b where ab: "(a, b) \<in> set (zip (butlast xs) (tl xs))" "a < z" "z < b"
    by (auto simp: gaps_def)
  from ab(1) obtain i where i: "i < length (butlast xs)" "i < length (tl xs)"
    "a = butlast xs ! i" "b = tl xs ! i"
    by (auto simp: set_zip)
  then have "Suc i < length xs" "a = xs ! i" "b = xs ! Suc i"
    by (auto simp: nth_butlast nth_tl)
  with ab show ?thesis by blast
qed

lemma pairs_post:
  "sorted_wrt (<) (x # xs) \<Longrightarrow> \<forall>y\<in>set (x # xs). 0 \<le> y \<and> y < int (length (seg st)) \<Longrightarrow>
   \<exists>st'. segment_pairs orc z0 z1 stop_lower stop_upper
            (zip (butlast (x # xs)) (tl (x # xs))) st = (None, st') \<and>
         filled_pairs (x # xs) st st'"
proof (induction xs arbitrary: x st)
  case Nil
  have "filled_pairs [x] st st"
    unfolding filled_pairs_def gaps_single by (auto intro: exI [where x = "[]"])
  then show ?case by simp
next
  case (Cons y ys)
  from Cons.prems have s: "sorted_wrt (<) (y # ys)" "x < y"
    and r: "0 \<le> x" "y < int (length (seg st))"
      "\<forall>a\<in>set (y # ys). 0 \<le> a \<and> a < int (length (seg st))"
    by simp_all
  from between_post [OF r(1) s(2) r(2), of orc z0 z1 stop_lower stop_upper]
  obtain s1 where run1: "segment_between orc z0 z1 stop_lower stop_upper x y st = (None, s1)"
    and f1: "filled_between x y st s1" by blast
  from f1 obtain cs1 where len1: "length (seg s1) = length (seg st)"
    and wr1: "writes s1 = writes st @ map snd cs1" and cl1: "calls s1 = calls st @ cs1"
    and d1: "distinct (map snd cs1)" and set1: "set (map snd cs1) = {x<..<y}"
    and fr1: "\<And>i. 0 \<le> i \<Longrightarrow> \<not> (x < i \<and> i < y) \<Longrightarrow> slice_at s1 i = slice_at st i"
    unfolding filled_between_def by blast
  from r(3) len1 have r': "\<forall>a\<in>set (y # ys). 0 \<le> a \<and> a < int (length (seg s1))" by simp
  from Cons.IH [OF s(1) r']
  obtain st' where run2: "segment_pairs orc z0 z1 stop_lower stop_upper
            (zip (butlast (y # ys)) (tl (y # ys))) s1 = (None, st')"
    and f2: "filled_pairs (y # ys) s1 st'" by blast
  from f2 obtain cs2 where len2: "length (seg st') = length (seg s1)"
    and wr2: "writes st' = writes s1 @ map snd cs2" and cl2: "calls st' = calls s1 @ cs2"
    and d2: "distinct (map snd cs2)" and set2: "set (map snd cs2) = gaps (y # ys)"
    and fr2: "\<And>i. 0 \<le> i \<Longrightarrow> i \<notin> gaps (y # ys) \<Longrightarrow> slice_at st' i = slice_at s1 i"
    unfolding filled_pairs_def by blast
  have run: "segment_pairs orc z0 z1 stop_lower stop_upper
            (zip (butlast (x # y # ys)) (tl (x # y # ys))) st = (None, st')"
    using run1 run2 by (simp add: and_then_def)
  have disj: "set (map snd cs1) \<inter> set (map snd cs2) = {}"
    unfolding set1 set2 using gaps_above [OF s(1)] by fastforce
  have "writes st' = writes st @ map snd (cs1 @ cs2)" "calls st' = calls st @ (cs1 @ cs2)"
    "distinct (map snd (cs1 @ cs2))" "set (map snd (cs1 @ cs2)) = gaps (x # y # ys)"
    using wr1 wr2 cl1 cl2 d1 d2 disj set1 set2 by (simp_all add: gaps_Cons)
  moreover have "\<forall>i. 0 \<le> i \<and> i \<notin> gaps (x # y # ys) \<longrightarrow> slice_at st' i = slice_at st i"
    using fr1 fr2 by (auto simp: gaps_Cons)
  moreover have "length (seg st') = length (seg st)" using len1 len2 by simp
  ultimately have "filled_pairs (x # y # ys) st st'"
    unfolding filled_pairs_def by blast
  with run show ?case by blast
qed

section \<open>The three phases of \<open>_segment_volume\<close>\<close>

lemma Min_strict_sorted:
  fixes x :: int
  shows "sorted_wrt (<) (x # xs) \<Longrightarrow> Min (set (x # xs)) = x"
  by (intro Min_eqI) (auto intro: less_imp_le)

lemma last_strict_sorted:
  fixes x :: int
  shows "sorted_wrt (<) (x # xs) \<Longrightarrow> a \<in> set (x # xs) \<Longrightarrow> a \<le> last (x # xs)"
proof (induction xs arbitrary: x a)
  case Nil
  then show ?case by simp
next
  case (Cons y ys)
  from Cons.prems(1) have xy: "x < y" and s: "sorted_wrt (<) (y # ys)" by simp_all
  have l: "last (x # y # ys) = last (y # ys)" by simp
  from Cons.prems(2) have "a = x \<or> a \<in> set (y # ys)" by simp
  then show ?case
  proof
    assume "a = x"
    moreover have "y \<le> last (y # ys)" using s by (rule Cons.IH) simp
    ultimately show ?thesis unfolding l using xy by linarith
  next
    assume "a \<in> set (y # ys)"
    with s show ?thesis unfolding l by (rule Cons.IH)
  qed
qed

lemma Max_strict_sorted:
  fixes x :: int
  assumes "sorted_wrt (<) (x # xs)"
  shows "Max (set (x # xs)) = last (x # xs)"
proof (rule Max_eqI)
  show "finite (set (x # xs))" by simp
  show "\<And>y. y \<in> set (x # xs) \<Longrightarrow> y \<le> last (x # xs)"
    using assms by (rule last_strict_sorted)
  show "last (x # xs) \<in> set (x # xs)"
    by (rule last_in_set) simp
qed

lemma gaps_inside:
  assumes "sorted_wrt (<) (x # xs)" "z \<in> gaps (x # xs)"
  shows "x < z \<and> z < last (x # xs) \<and> z \<notin> set (x # xs)"
  using assms gaps_char [OF assms(1)] by simp

lemma segment_volume_unfold:
  assumes "projection = ''mask'' \<or> projection = ''bounding_box''" "xs \<noteq> []"
  shows "segment_volume sfm xs stop_lower stop_upper thr projection st =
     and_then
       (if Min (set xs) > 0 \<and> \<not> stop_lower
        then segment_range (sfm (projection = ''mask'') True) (Min (set xs)) 0 (- 1) (<) (Some thr) st
        else (None, st))
       (\<lambda>st. and_then
          (if Max (set xs) < int (length (seg st)) - 1 \<and> \<not> stop_upper
           then segment_range (sfm (projection = ''mask'') True) (Max (set xs))
                  (int (length (seg st)) - 1) 1 (>) (Some thr) st
           else (None, st))
       (\<lambda>st. if Min (set xs) \<noteq> Max (set xs)
             then segment_pairs (sfm (projection = ''mask'') True) (Min (set xs)) (Max (set xs))
                    stop_lower stop_upper (zip (butlast xs) (tl xs)) st
             else (None, st)))"
proof (cases "projection = ''mask''")
  case True
  show ?thesis
    unfolding True using assms(2)
    by (simp add: segment_volume_def Let_def split del: if_split cong: if_cong)
next
  case False
  with assms(1) have bb: "projection = ''bounding_box''" by simp
  show ?thesis
    unfolding bb using assms(2)
    by (simp add: segment_volume_def Let_def split del: if_split cong: if_cong)
qed

lemma volume_phases:
  assumes ann: "annotated (x # xs) st"
    and proj: "projection = ''mask'' \<or> projection = ''bounding_box''"
  shows "\<exists>ml mu sa sb st'.
    segment_volume sfm (x # xs) stop_lower stop_upper thr projection st = (None, st') \<and>
    (if 0 < x \<and> \<not> stop_lower
     then walked_down (sfm (projection = ''mask'') True) (Some thr) x 0 ml st sa
     else sa = st \<and> ml = x) \<and>
    (if last (x # xs) < int (length (seg st)) - 1 \<and> \<not> stop_upper
     then walked_up (sfm (projection = ''mask'') True) (Some thr) (last (x # xs))
            (int (length (seg st)) - 1) mu sa sb
     else sb = sa \<and> mu = last (x # xs)) \<and>
    length (seg sa) = length (seg st) \<and> length (seg sb) = length (seg st) \<and>
    filled_pairs (x # xs) sb st'"
proof -
  let ?orc = "sfm (projection = ''mask'') True"
  let ?z1 = "last (x # xs)"
  let ?Z = "int (length (seg st))"
  from ann have srt: "sorted_wrt (<) (x # xs)"
    and rng: "\<forall>a\<in>set (x # xs). 0 \<le> a \<and> a < ?Z"
    by (simp_all add: annotated_def)
  have mm: "Min (set (x # xs)) = x" "Max (set (x # xs)) = ?z1"
    using srt by (rule Min_strict_sorted, rule Max_strict_sorted)
  have z1: "0 \<le> ?z1" "?z1 < ?Z" "x \<le> ?z1" "0 \<le> x" "x < ?Z"
    using rng last_in_set [of "x # xs"] last_strict_sorted [OF srt, of x]
    by (auto simp del: last.simps)
  \<comment> \<open>below the lowest annotated slice\<close>
  have "\<exists>ml sa. (if 0 < x \<and> \<not> stop_lower
      then segment_range ?orc x 0 (- 1) (<) (Some thr) st else (None, st)) = (None, sa) \<and>
     (if 0 < x \<and> \<not> stop_lower then walked_down ?orc (Some thr) x 0 ml st sa
      else sa = st \<and> ml = x)"
  proof (cases "0 < x \<and> \<not> stop_lower")
    case True
    then have "\<exists>m st'. segment_range ?orc x 0 (- 1) (<) (Some thr) st = (None, st') \<and>
           walked_down ?orc (Some thr) x 0 m st st'"
      using z1 by (intro walk_down) auto
    with True show ?thesis by auto
  next
    case False
    then show ?thesis by auto
  qed
  then obtain ml sa where runA: "(if 0 < x \<and> \<not> stop_lower
      then segment_range ?orc x 0 (- 1) (<) (Some thr) st else (None, st)) = (None, sa)"
    and A: "if 0 < x \<and> \<not> stop_lower then walked_down ?orc (Some thr) x 0 ml st sa
      else sa = st \<and> ml = x" by blast
  have lenA: "length (seg sa) = length (seg st)"
    using A by (auto simp: walked_down_def split: if_splits)
  \<comment> \<open>above the highest annotated slice\<close>
  have "\<exists>mu sb. (if ?z1 < int (length (seg sa)) - 1 \<and> \<not> stop_upper
      then segment_range ?orc ?z1 (int (length (seg sa)) - 1) 1 (>) (Some thr) sa
      else (None, sa)) = (None, sb) \<and>
     (if ?z1 < ?Z - 1 \<and> \<not> stop_upper then walked_up ?orc (Some thr) ?z1 (?Z - 1) mu sa sb
      else sb = sa \<and> mu = ?z1)"
  proof (cases "?z1 < ?Z - 1 \<and> \<not> stop_upper")
    case True
    then have "\<exists>m st'. segment_range ?orc ?z1 (?Z - 1) 1 (>) (Some thr) sa = (None, st') \<and>
           walked_up ?orc (Some thr) ?z1 (?Z - 1) m sa st'"
      using z1 lenA by (intro walk_up) auto
    with True lenA show ?thesis by auto
  next
    case False
    with lenA show ?thesis by auto
  qed
  then obtain mu sb where runB: "(if ?z1 < int (length (seg sa)) - 1 \<and> \<not> stop_upper
      then segment_range ?orc ?z1 (int (length (seg sa)) - 1) 1 (>) (Some thr) sa
      else (None, sa)) = (None, sb)"
    and B: "if ?z1 < ?Z - 1 \<and> \<not> stop_upper then walked_up ?orc (Some thr) ?z1 (?Z - 1) mu sa sb
      else sb = sa \<and> mu = ?z1" by blast
  have lenB: "length (seg sb) = length (seg st)"
    using B lenA by (auto simp: walked_up_def split: if_splits)
  \<comment> \<open>between the annotated slices\<close>
  from rng lenB have rng': "\<forall>a\<in>set (x # xs). 0 \<le> a \<and> a < int (length (seg sb))" by simp
  from pairs_post [OF srt rng', of ?orc x ?z1 stop_lower stop_upper]
  obtain st' where runC: "segment_pairs ?orc x ?z1 stop_lower stop_upper
            (zip (butlast (x # xs)) (tl (x # xs))) sb = (None, st')"
    and C: "filled_pairs (x # xs) sb st'" by blast
  have single: "x = ?z1 \<Longrightarrow> xs = []"
  proof (rule ccontr)
    assume e: "x = ?z1" and ne: "xs \<noteq> []"
    from ne have "last xs \<in> set xs" by simp
    with srt have "x < last xs" by simp
    moreover from ne have "last (x # xs) = last xs" by simp
    ultimately show False using e by linarith
  qed
  have runC': "(if x \<noteq> ?z1
             then segment_pairs ?orc x ?z1 stop_lower stop_upper
                    (zip (butlast (x # xs)) (tl (x # xs))) sb
             else (None, sb)) = (None, st')"
  proof (cases "x = ?z1")
    case True
    from single [OF True] have e: "xs = []" .
    from runC show ?thesis unfolding e by simp
  next
    case False
    then show ?thesis using runC by (simp only: if_True not_False_eq_True)
  qed
  have "segment_volume sfm (x # xs) stop_lower stop_upper thr projection st = (None, st')"
    unfolding segment_volume_unfold [OF proj list.distinct(2)] mm
    using runA runB runC' by (simp add: and_then_def del: last.simps butlast.simps)
  with A B C lenA lenB show ?thesis by blast
qed

text \<open>
  The volume, the write log and the oracle calls after a whole run, in terms of the final
  state: \<open>ml\<close> is the lowest slice the walk below the annotated range wrote
  (\<open>ml = x\<close> when it wrote none), \<open>mu\<close> the highest slice the walk above wrote.
\<close>

lemma stops_Some: "stops (Some thr) p n \<longleftrightarrow> compute_iou p n < thr"
  by (simp add: stops_def)

lemma volume_post:
  assumes ann: "annotated (x # xs) st"
    and proj: "projection = ''mask'' \<or> projection = ''bounding_box''"
    and orc: "orc = sfm (projection = ''mask'') True"
    and z1: "z1 = last (x # xs)" and Z: "Z = int (length (seg st))"
  shows "\<exists>st' ml mu cs.
    segment_volume sfm (x # xs) stop_lower stop_upper thr projection st = (None, st') \<and>
    length (seg st') = length (seg st) \<and>
    0 \<le> ml \<and> ml \<le> x \<and> z1 \<le> mu \<and> mu < Z \<and>
    (ml < x \<longrightarrow> 0 < x \<and> \<not> stop_lower) \<and> (z1 < mu \<longrightarrow> z1 < Z - 1 \<and> \<not> stop_upper) \<and>
    writes st' = writes st @ rev [ml..x - 1] @ [z1 + 1..mu] @ map snd cs \<and>
    calls st' = calls st @
      map (\<lambda>z. (slice_at st' (z + 1), z))
        (rev [(if 0 < x \<and> \<not> stop_lower \<and> 0 < ml then ml - 1 else ml)..x - 1]) @
      map (\<lambda>z. (slice_at st' (z - 1), z))
        [z1 + 1..(if z1 < Z - 1 \<and> \<not> stop_upper \<and> mu < Z - 1 then mu + 1 else mu)] @ cs \<and>
    distinct (map snd cs) \<and> set (map snd cs) = gaps (x # xs) \<and>
    (\<forall>z. ml \<le> z \<and> z < x \<longrightarrow>
       slice_at st' z = orc (slice_at st' (z + 1)) z \<and>
       \<not> compute_iou (slice_at st' (z + 1)) (slice_at st' z) < thr) \<and>
    (0 < x \<and> \<not> stop_lower \<and> 0 < ml \<longrightarrow>
       compute_iou (slice_at st' ml) (orc (slice_at st' ml) (ml - 1)) < thr) \<and>
    (\<forall>z. z1 < z \<and> z \<le> mu \<longrightarrow>
       slice_at st' z = orc (slice_at st' (z - 1)) z \<and>
       \<not> compute_iou (slice_at st' (z - 1)) (slice_at st' z) < thr) \<and>
    (z1 < Z - 1 \<and> \<not> stop_upper \<and> mu < Z - 1 \<longrightarrow>
       compute_iou (slice_at st' mu) (orc (slice_at st' mu) (mu + 1)) < thr) \<and>
    (\<forall>i. 0 \<le> i \<and> \<not> (ml \<le> i \<and> i < x) \<and> \<not> (z1 < i \<and> i \<le> mu) \<and> i \<notin> gaps (x # xs) \<longrightarrow>
       slice_at st' i = slice_at st i)"
proof -
  from ann have srt: "sorted_wrt (<) (x # xs)"
    and rng: "\<forall>a\<in>set (x # xs). 0 \<le> a \<and> a < Z"
    by (simp_all add: annotated_def Z)
  have zz: "0 \<le> z1" "z1 < Z" "x \<le> z1" "0 \<le> x" "x < Z"
    using rng last_in_set [of "x # xs"] last_strict_sorted [OF srt, of x]
    by (auto simp del: last.simps simp add: z1)
  have gin: "\<And>i. i \<in> gaps (x # xs) \<Longrightarrow> x < i \<and> i < z1"
    using gaps_inside [OF srt] by (simp add: z1 del: last.simps)
  from volume_phases [OF ann proj, of sfm stop_lower stop_upper thr]
  obtain ml mu sa sb st' where
    run: "segment_volume sfm (x # xs) stop_lower stop_upper thr projection st = (None, st')"
    and A: "if 0 < x \<and> \<not> stop_lower then walked_down orc (Some thr) x 0 ml st sa
            else sa = st \<and> ml = x"
    and B: "if z1 < Z - 1 \<and> \<not> stop_upper then walked_up orc (Some thr) z1 (Z - 1) mu sa sb
            else sb = sa \<and> mu = z1"
    and lenA: "length (seg sa) = length (seg st)" and lenB: "length (seg sb) = length (seg st)"
    and C: "filled_pairs (x # xs) sb st'"
    unfolding orc z1 Z by blast
  \<comment> \<open>the walk below, whether it ran or not\<close>
  have A1: "0 \<le> ml" "ml \<le> x" "ml < x \<longrightarrow> 0 < x \<and> \<not> stop_lower"
    and wrA: "writes sa = writes st @ rev [ml..x - 1]"
    and clA: "calls sa = calls st @ map (\<lambda>z. (slice_at sa (z + 1), z))
        (rev [(if 0 < x \<and> \<not> stop_lower \<and> 0 < ml then ml - 1 else ml)..x - 1])"
    and frA: "\<And>i. 0 \<le> i \<Longrightarrow> \<not> (ml \<le> i \<and> i < x) \<Longrightarrow> slice_at sa i = slice_at st i"
    and ctA: "\<And>z. ml \<le> z \<Longrightarrow> z < x \<Longrightarrow> slice_at sa z = orc (slice_at sa (z + 1)) z \<and>
        \<not> compute_iou (slice_at sa (z + 1)) (slice_at sa z) < thr"
    and spA: "0 < x \<and> \<not> stop_lower \<and> 0 < ml \<longrightarrow>
        compute_iou (slice_at sa ml) (orc (slice_at sa ml) (ml - 1)) < thr"
    using A zz by (auto simp: walked_down_def stops_Some split: if_splits)
  \<comment> \<open>the walk above, whether it ran or not\<close>
  have B1: "z1 \<le> mu" "mu < Z" "z1 < mu \<longrightarrow> z1 < Z - 1 \<and> \<not> stop_upper"
    and wrB: "writes sb = writes sa @ [z1 + 1..mu]"
    and clB: "calls sb = calls sa @ map (\<lambda>z. (slice_at sb (z - 1), z))
        [z1 + 1..(if z1 < Z - 1 \<and> \<not> stop_upper \<and> mu < Z - 1 then mu + 1 else mu)]"
    and frB: "\<And>i. 0 \<le> i \<Longrightarrow> \<not> (z1 < i \<and> i \<le> mu) \<Longrightarrow> slice_at sb i = slice_at sa i"
    and ctB: "\<And>z. z1 < z \<Longrightarrow> z \<le> mu \<Longrightarrow> slice_at sb z = orc (slice_at sb (z - 1)) z \<and>
        \<not> compute_iou (slice_at sb (z - 1)) (slice_at sb z) < thr"
    and spB: "z1 < Z - 1 \<and> \<not> stop_upper \<and> mu < Z - 1 \<longrightarrow>
        compute_iou (slice_at sb mu) (orc (slice_at sb mu) (mu + 1)) < thr"
    using B zz by (auto simp: walked_up_def stops_Some split: if_splits)
  from C obtain cs where lenC: "length (seg st') = length (seg sb)"
    and wrC: "writes st' = writes sb @ map snd cs" and clC: "calls st' = calls sb @ cs"
    and dC: "distinct (map snd cs)" and setC: "set (map snd cs) = gaps (x # xs)"
    and frC: "\<And>i. 0 \<le> i \<Longrightarrow> i \<notin> gaps (x # xs) \<Longrightarrow> slice_at st' i = slice_at sb i"
    unfolding filled_pairs_def by blast
  \<comment> \<open>slices outside the annotated range keep the value the walks gave them\<close>
  have lo: "\<And>i. 0 \<le> i \<Longrightarrow> i \<le> x \<Longrightarrow> slice_at st' i = slice_at sa i"
  proof -
    fix i :: int assume i: "0 \<le> i" "i \<le> x"
    with gin have "i \<notin> gaps (x # xs)" by fastforce
    with frC i have "slice_at st' i = slice_at sb i" by simp
    also have "\<dots> = slice_at sa i" using frB i zz by simp
    finally show "slice_at st' i = slice_at sa i" .
  qed
  have hi: "\<And>i. z1 \<le> i \<Longrightarrow> slice_at st' i = slice_at sb i"
  proof -
    fix i :: int assume i: "z1 \<le> i"
    with gin have "i \<notin> gaps (x # xs)" by fastforce
    with frC i zz show "slice_at st' i = slice_at sb i" by simp
  qed
  have mA: "map (\<lambda>z. (slice_at sa (z + 1), z))
        (rev [(if 0 < x \<and> \<not> stop_lower \<and> 0 < ml then ml - 1 else ml)..x - 1]) =
      map (\<lambda>z. (slice_at st' (z + 1), z))
        (rev [(if 0 < x \<and> \<not> stop_lower \<and> 0 < ml then ml - 1 else ml)..x - 1])"
    using A1 by (intro map_cong) (auto simp: lo split: if_splits)
  have mB: "map (\<lambda>z. (slice_at sb (z - 1), z))
        [z1 + 1..(if z1 < Z - 1 \<and> \<not> stop_upper \<and> mu < Z - 1 then mu + 1 else mu)] =
      map (\<lambda>z. (slice_at st' (z - 1), z))
        [z1 + 1..(if z1 < Z - 1 \<and> \<not> stop_upper \<and> mu < Z - 1 then mu + 1 else mu)]"
    by (intro map_cong) (auto simp: hi split: if_splits)
  have c_len: "length (seg st') = length (seg st)" using lenB lenC by simp
  have c_wr: "writes st' = writes st @ rev [ml..x - 1] @ [z1 + 1..mu] @ map snd cs"
    using wrA wrB wrC by simp
  have c_cl: "calls st' = calls st @
      map (\<lambda>z. (slice_at st' (z + 1), z))
        (rev [(if 0 < x \<and> \<not> stop_lower \<and> 0 < ml then ml - 1 else ml)..x - 1]) @
      map (\<lambda>z. (slice_at st' (z - 1), z))
        [z1 + 1..(if z1 < Z - 1 \<and> \<not> stop_upper \<and> mu < Z - 1 then mu + 1 else mu)] @ cs"
    using clA clB clC mA mB by simp
  have c_ctA: "\<forall>z. ml \<le> z \<and> z < x \<longrightarrow>
       slice_at st' z = orc (slice_at st' (z + 1)) z \<and>
       \<not> compute_iou (slice_at st' (z + 1)) (slice_at st' z) < thr"
  proof (intro allI impI)
    fix z assume z: "ml \<le> z \<and> z < x"
    with A1 have e: "slice_at st' z = slice_at sa z" "slice_at st' (z + 1) = slice_at sa (z + 1)"
      by (simp_all add: lo)
    from z ctA [of z]
    show "slice_at st' z = orc (slice_at st' (z + 1)) z \<and>
       \<not> compute_iou (slice_at st' (z + 1)) (slice_at st' z) < thr"
      unfolding e by blast
  qed
  have c_spA: "0 < x \<and> \<not> stop_lower \<and> 0 < ml \<longrightarrow>
       compute_iou (slice_at st' ml) (orc (slice_at st' ml) (ml - 1)) < thr"
    using spA A1 by (simp add: lo)
  have c_ctB: "\<forall>z. z1 < z \<and> z \<le> mu \<longrightarrow>
       slice_at st' z = orc (slice_at st' (z - 1)) z \<and>
       \<not> compute_iou (slice_at st' (z - 1)) (slice_at st' z) < thr"
  proof (intro allI impI)
    fix z assume z: "z1 < z \<and> z \<le> mu"
    then have e: "slice_at st' z = slice_at sb z" "slice_at st' (z - 1) = slice_at sb (z - 1)"
      by (simp_all add: hi)
    from z ctB [of z]
    show "slice_at st' z = orc (slice_at st' (z - 1)) z \<and>
       \<not> compute_iou (slice_at st' (z - 1)) (slice_at st' z) < thr"
      unfolding e by blast
  qed
  have c_spB: "z1 < Z - 1 \<and> \<not> stop_upper \<and> mu < Z - 1 \<longrightarrow>
       compute_iou (slice_at st' mu) (orc (slice_at st' mu) (mu + 1)) < thr"
    using spB B1 by (simp add: hi)
  have c_fr: "\<forall>i. 0 \<le> i \<and> \<not> (ml \<le> i \<and> i < x) \<and> \<not> (z1 < i \<and> i \<le> mu) \<and> i \<notin> gaps (x # xs) \<longrightarrow>
       slice_at st' i = slice_at st i"
    using frA frB frC by simp
  show ?thesis
    using run c_len A1 B1 c_wr c_cl dC setC c_ctA c_spA c_ctB c_spB c_fr by blast
qed

section \<open>A gap of two slices\<close>

text \<open>
  C3, as the code has it. For consecutive annotated slices \<open>z_start\<close> and
  \<open>z_stop = z_start + 2\<close> inside the volume, when neither stop flag applies to the
  pair (the pair does not start at the lowest annotated slice with \<open>stop_lower\<close>
  set, and does not end at the highest one with \<open>stop_upper\<close> set), the engine
  calls the oracle once, for slice \<open>z_start + 1\<close>, with the logical OR of the
  foreground of the two bounding slices as the prompt, assigns the result to that slice
  and reports one unit of progress: there is no walk. A pixel of the prompt is foreground
  exactly when it is foreground in one of the two bounding masks.
\<close>

theorem C3_gap_two_union:
  assumes "z_stop - z_start = 2" "0 \<le> z_start" "z_stop < int (length (seg st))"
    and "\<not> (z_start = z0 \<and> stop_lower)" "\<not> (z_stop = z1 \<and> stop_upper)"
  shows "segment_between orc z0 z1 stop_lower stop_upper z_start z_stop st =
     (None, update_progress
        (st\<lparr>calls := calls st @
               [(of_bools (logical_or (eq1 (seg st ! nat z_start)) (eq1 (seg st ! nat z_stop))),
                 z_start + 1)],
            seg := (seg st)[nat (z_start + 1) :=
               orc (of_bools (logical_or (eq1 (seg st ! nat z_start)) (eq1 (seg st ! nat z_stop))))
                 (z_start + 1)],
            writes := writes st @ [z_start + 1]\<rparr>))
    \<and> (\<forall>r c. r < length (seg st ! nat z_start) \<and>
          length (seg st ! nat z_stop) = length (seg st ! nat z_start) \<and>
          c < length (seg st ! nat z_start ! r) \<and>
          length (seg st ! nat z_stop ! r) = length (seg st ! nat z_start ! r) \<longrightarrow>
          of_bools (logical_or (eq1 (seg st ! nat z_start)) (eq1 (seg st ! nat z_stop))) ! r ! c =
            (if seg st ! nat z_start ! r ! c = 1 \<or> seg st ! nat z_stop ! r ! c = 1
             then 1 else 0))"
proof -
  from assms have rng: "z_start < int (length (seg st))" "0 \<le> z_stop"
    "0 \<le> z_start + 1" "z_start + 1 < int (length (seg st))" by simp_all
  have "segment_between orc z0 z1 stop_lower stop_upper z_start z_stop st =
          segment_combined orc z_start z_stop (z_start + 1) st"
    using assms by (auto simp: segment_between_def Let_def)
  then show ?thesis
    using segment_combined_in_range [OF assms(2) rng(1) rng(2) assms(3) rng(3) rng(4), of orc]
    by (simp add: prompt_pixel)
qed

text \<open>
  The example of the specification: the slices 1 and 3 of a volume of five slices hold
  \<open>mA\<close> and \<open>mB\<close>; slice 2 is segmented from a prompt with both points.
\<close>

theorem C3_gap_two_union_witness:
  "segment_between (stub True True) 1 3 False False 1 3 (volume [mZ, mA, mZ, mB, mZ]) =
     (None, \<lparr>seg = [mZ, mA, [[0, 0, 0], [0, 1, 0], [0, 0, 1]], mB, mZ],
             progress_bar = Some 1, writes = [2],
             calls = [([[0, 0, 0], [0, 1, 0], [0, 0, 1]], 2)]\<rparr>)"
  using C3_gap_two_union [of 3 1 "volume [mZ, mA, mZ, mB, mZ]" 1 False 3 False "stub True True"]
  by (simp add: example_defs update_progress_def of_bools_def logical_or_def eq1_def)

text \<open>
  With \<open>stop_lower\<close> set and the pair starting at the lowest annotated slice, the
  branch for the stop flag comes first: slice 1 is segmented by a walk down from slice 2,
  from the mask of slice 2 alone, and the prompt does not contain the point (1,1).
\<close>

theorem C3_counterexample:
  "calls (snd (segment_volume stub [0, 2] True False 0 ''mask'' (volume [mA, mZ, mB])))
     = [(mB, 1)]
   \<and> mB \<noteq> of_bools (logical_or (eq1 mA) (eq1 mB))"
  by (simp add: example_defs engine_defs segment_range_loop.simps)

section \<open>No annotated slice\<close>

text \<open>
  C9. The request of the data model carries one of the two projection modes. A call with
  such a mode and no annotated slice fails with \<open>EmptyAnnotationSet\<close>: the error is
  the result of the call, the oracle is not called, and the volume and the progress sink
  are as they were.
\<close>

theorem C9_empty_annotation_set:
  assumes "projection = ''mask'' \<or> projection = ''bounding_box''"
  shows "segment_volume segment_from_mask [] stop_lower stop_upper iou_threshold projection st =
           (Some EmptyAnnotationSet, st)"
  using assms by (auto simp: segment_volume_def)

theorem C9_empty_annotation_set_witness:
  "segment_volume stub [] False False (4 / 5) ''bounding_box'' (volume [mA, mZ, mB]) =
     (Some EmptyAnnotationSet, volume [mA, mZ, mB])"
  using C9_empty_annotation_set [of "''bounding_box''" stub False False "4 / 5"
      "volume [mA, mZ, mB]"]
  by simp

text \<open>
  The projection mode is checked by the first statement of \<open>_segment_volume\<close>: a mode
  that is not one of the two fails there, whatever the other arguments are.
\<close>

lemma unrecognised_projection:
  assumes "projection \<noteq> ''mask''" "projection \<noteq> ''bounding_box''"
  shows "segment_volume segment_from_mask segmented_slices stop_lower stop_upper iou_threshold
           projection st = (Some InvalidProjection, st)"
  using assms by (simp add: segment_volume_def)

section \<open>A gap of more than two slices\<close>

lemma count_list_distinct: "distinct xs \<Longrightarrow> x \<in> set xs \<Longrightarrow> count_list xs x = 1"
  by (induction xs) auto

text \<open>
  C1. For consecutive annotated slices \<open>z_start < z_stop\<close> inside the volume with a
  gap of more than 2, when neither stop flag applies to the pair, the loop body returns
  without error and, with \<open>mid = (z_start + z_stop) // 2\<close>:
  for an even gap the walk up writes \<open>z_start + 1, ..., mid - 1\<close>, the walk down writes
  \<open>z_stop - 1, ..., mid + 1\<close>, and then \<open>mid\<close> is segmented, as the last call of
  the oracle, from the logical OR of the masks at \<open>mid - 1\<close> and \<open>mid + 1\<close>;
  for an odd gap the walk up writes \<open>z_start + 1, ..., mid\<close>, the walk down
  \<open>z_stop - 1, ..., mid + 1\<close>, and there is no further call: \<open>mid\<close> is segmented
  from the mask at \<open>mid - 1\<close>. Every call of a walk is prompted with the mask of the
  neighbouring slice it comes from. Every slice strictly between the pair is written
  exactly once, nothing else is written, and no slice outside changes.
\<close>

theorem C1_general_gap:
  assumes "0 \<le> z_start" "z_stop < int (length (seg st))" "2 < z_stop - z_start"
    and "\<not> (z_start = z0 \<and> stop_lower)" "\<not> (z_stop = z1 \<and> stop_upper)"
    and "mid = (z_start + z_stop) div 2"
  shows "\<exists>st'. segment_between orc z0 z1 stop_lower stop_upper z_start z_stop st = (None, st') \<and>
     (if (z_stop - z_start) mod 2 = 0
      then writes st' = writes st @ [z_start + 1..mid - 1] @ rev [mid + 1..z_stop - 1] @ [mid] \<and>
           calls st' = calls st @
             map (\<lambda>z. (slice_at st' (z - 1), z)) [z_start + 1..mid - 1] @
             map (\<lambda>z. (slice_at st' (z + 1), z)) (rev [mid + 1..z_stop - 1]) @
             [(union_prompt st' (mid - 1) (mid + 1), mid)] \<and>
           slice_at st' mid = orc (union_prompt st' (mid - 1) (mid + 1)) mid
      else writes st' = writes st @ [z_start + 1..mid] @ rev [mid + 1..z_stop - 1] \<and>
           calls st' = calls st @
             map (\<lambda>z. (slice_at st' (z - 1), z)) [z_start + 1..mid] @
             map (\<lambda>z. (slice_at st' (z + 1), z)) (rev [mid + 1..z_stop - 1]) \<and>
           slice_at st' mid = orc (slice_at st' (mid - 1)) mid) \<and>
     (\<forall>z. z_start < z \<and> z < mid \<longrightarrow> slice_at st' z = orc (slice_at st' (z - 1)) z) \<and>
     (\<forall>z. mid < z \<and> z < z_stop \<longrightarrow> slice_at st' z = orc (slice_at st' (z + 1)) z) \<and>
     (\<forall>z. z_start < z \<and> z < z_stop \<longrightarrow>
        count_list (drop (length (writes st)) (writes st')) z = 1) \<and>
     set (drop (length (writes st)) (writes st')) = {z_start<..<z_stop} \<and>
     (\<forall>i. 0 \<le> i \<and> \<not> (z_start < i \<and> i < z_stop) \<longrightarrow> slice_at st' i = slice_at st i)"
proof (cases "(z_stop - z_start) mod 2 = 0")
  case True
  define h where "h = (z_stop - z_start) div 2"
  from True assms(3) have h: "z_stop = z_start + 2 * h" "2 \<le> h"
    unfolding h_def by presburger+
  have m: "mid = z_start + h" using h assms(6) by simp
  from between_even [OF assms(1,2) h assms(4,5), of orc]
  obtain st' where run: "segment_between orc z0 z1 stop_lower stop_upper z_start z_stop st = (None, st')"
    and wr: "writes st' = writes st @ [z_start + 1..mid - 1] @ rev [mid + 1..z_stop - 1] @ [mid]"
    and cl: "calls st' = calls st @
             map (\<lambda>z. (slice_at st' (z - 1), z)) [z_start + 1..mid - 1] @
             map (\<lambda>z. (slice_at st' (z + 1), z)) (rev [mid + 1..z_stop - 1]) @
             [(union_prompt st' (mid - 1) (mid + 1), mid)]"
    and lo: "\<forall>z. z_start < z \<and> z < mid \<longrightarrow> slice_at st' z = orc (slice_at st' (z - 1)) z"
    and hi: "\<forall>z. mid < z \<and> z < z_stop \<longrightarrow> slice_at st' z = orc (slice_at st' (z + 1)) z"
    and md: "slice_at st' mid = orc (union_prompt st' (mid - 1) (mid + 1)) mid"
    and fr: "\<forall>i. 0 \<le> i \<and> \<not> (z_start < i \<and> i < z_stop) \<longrightarrow> slice_at st' i = slice_at st i"
    unfolding m by blast
  let ?ws = "[z_start + 1..mid - 1] @ rev [mid + 1..z_stop - 1] @ [mid]"
  have dr: "drop (length (writes st)) (writes st') = ?ws" using wr by simp
  have ds: "distinct ?ws" "set ?ws = {z_start<..<z_stop}" using h m by auto
  have cnt: "\<forall>z. z_start < z \<and> z < z_stop \<longrightarrow> count_list ?ws z = 1"
    using ds by (intro allI impI count_list_distinct) auto
  show ?thesis
    using True run wr cl lo hi md cnt ds(2) fr unfolding dr by (intro exI [of _ st']) simp
next
  case False
  define h where "h = (z_stop - z_start) div 2"
  from False assms(3) have h: "z_stop = z_start + 2 * h + 1" "1 \<le> h"
    unfolding h_def by presburger+
  have m: "mid = z_start + h" using h assms(6) by simp
  from between_odd [OF assms(1,2) h assms(4,5), of orc]
  obtain st' where run: "segment_between orc z0 z1 stop_lower stop_upper z_start z_stop st = (None, st')"
    and wr: "writes st' = writes st @ [z_start + 1..mid] @ rev [mid + 1..z_stop - 1]"
    and cl: "calls st' = calls st @
             map (\<lambda>z. (slice_at st' (z - 1), z)) [z_start + 1..mid] @
             map (\<lambda>z. (slice_at st' (z + 1), z)) (rev [mid + 1..z_stop - 1])"
    and lo: "\<forall>z. z_start < z \<and> z \<le> mid \<longrightarrow> slice_at st' z = orc (slice_at st' (z - 1)) z"
    and hi: "\<forall>z. mid < z \<and> z < z_stop \<longrightarrow> slice_at st' z = orc (slice_at st' (z + 1)) z"
    and fr: "\<forall>i. 0 \<le> i \<and> \<not> (z_start < i \<and> i < z_stop) \<longrightarrow> slice_at st' i = slice_at st i"
    unfolding m by blast
  let ?ws = "[z_start + 1..mid] @ rev [mid + 1..z_stop - 1]"
  have dr: "drop (length (writes st)) (writes st') = ?ws" using wr by simp
  have ds: "distinct ?ws" "set ?ws = {z_start<..<z_stop}" using h m by auto
  have cnt: "\<forall>z. z_start < z \<and> z < z_stop \<longrightarrow> count_list ?ws z = 1"
    using ds by (intro allI impI count_list_distinct) auto
  have md: "slice_at st' mid = orc (slice_at st' (mid - 1)) mid"
    using lo h m by simp
  have lo': "\<forall>z. z_start < z \<and> z < mid \<longrightarrow> slice_at st' z = orc (slice_at st' (z - 1)) z"
    using lo by simp
  show ?thesis
    using False run wr cl lo' hi md cnt ds(2) fr unfolding dr by (intro exI [of _ st']) simp
qed

text \<open>
  Gaps of 4 and of 5 with the stub oracle: the union step is the last call for the gap
  of 4 and does not occur for the gap of 5.
\<close>

theorem C1_general_gap_witness:
  "(\<exists>st'. segment_between (stub True True) 2 6 False False 2 6 (volume vol10) = (None, st') \<and>
      writes st' = [3, 5, 4] \<and> map snd (calls st') = [3, 5, 4] \<and>
      fst (last (calls st')) = union_prompt st' 3 5) \<and>
   (\<exists>st'. segment_between (stub True True) 2 7 False False 2 7 (volume vol10) = (None, st') \<and>
      writes st' = [3, 4, 6, 5] \<and> map snd (calls st') = [3, 4, 6, 5])"
proof
  have h: "(0::int) \<le> 2" "(6::int) < int (length (seg (volume vol10)))" "(2::int) < 6 - 2"
    "\<not> ((2::int) = 2 \<and> False)" "\<not> ((6::int) = 6 \<and> False)" "(4::int) = (2 + 6) div 2"
    by (simp_all add: volume_def vol10_def)
  from C1_general_gap [OF h, of "stub True True"]
  show "\<exists>st'. segment_between (stub True True) 2 6 False False 2 6 (volume vol10) = (None, st') \<and>
      writes st' = [3, 5, 4] \<and> map snd (calls st') = [3, 5, 4] \<and>
      fst (last (calls st')) = union_prompt st' 3 5"
    by (auto simp: volume_def map_snd_prompts simp del: map_map)
next
  have h: "(0::int) \<le> 2" "(7::int) < int (length (seg (volume vol10)))" "(2::int) < 7 - 2"
    "\<not> ((2::int) = 2 \<and> False)" "\<not> ((7::int) = 7 \<and> False)" "(4::int) = (2 + 7) div 2"
    by (simp_all add: volume_def vol10_def)
  from C1_general_gap [OF h, of "stub True True"]
  show "\<exists>st'. segment_between (stub True True) 2 7 False False 2 7 (volume vol10) = (None, st') \<and>
      writes st' = [3, 4, 6, 5] \<and> map snd (calls st') = [3, 4, 6, 5]"
    by (auto simp: volume_def map_snd_prompts simp del: map_map)
qed

section \<open>Outward extension and the IOU stop\<close>

text \<open>
  C2. For a call with a recognised projection mode and annotated slices that satisfy the
  data model (\<open>annotated\<close>), with \<open>z0\<close> the lowest and \<open>z1\<close> the highest
  annotated slice and \<open>Z\<close> the number of slices, the call returns without error, and
  there are a slice \<open>ml\<close> (the lowest slice the walk below wrote, \<open>z0\<close> if it
  wrote none) and a slice \<open>mu\<close> (the highest slice the walk above wrote, \<open>z1\<close> if
  it wrote none) such that:
  \<^item> the write log grows by \<open>z0 - 1, ..., ml\<close>, then \<open>z1 + 1, ..., mu\<close>, then
    the slices written between annotated slices;
  \<^item> the oracle is called for slice \<open>z0 - 1\<close> exactly when \<open>z0 > 0\<close> and
    \<open>stop_lower\<close> is false, and for slice \<open>z1 + 1\<close> exactly when
    \<open>z1 < Z - 1\<close> and \<open>stop_upper\<close> is false;
  \<^item> every slice an outward walk wrote is the oracle's answer to the mask of its
    neighbour on the side of the annotated range, and its IOU with that mask is not below
    the threshold;
  \<^item> when the walk below ran and stopped above slice 0, the oracle's answer for slice
    \<open>ml - 1\<close> had an IOU below the threshold with the mask at \<open>ml\<close>; that answer
    was not written, and the slices below \<open>ml\<close> are as before the call (symmetrically
    above \<open>mu\<close>);
  \<^item> whatever the threshold, every slice strictly between \<open>z0\<close> and \<open>z1\<close>
    that is not annotated is written exactly once, after one call of the oracle for it:
    the IOU test does not stop the interpolation.
\<close>

theorem C2_outward_extension:
  assumes "annotated segmented_slices st"
    and "projection = ''mask'' \<or> projection = ''bounding_box''"
    and "orc = segment_from_mask (projection = ''mask'') True"
    and "z0 = Min (set segmented_slices)" and "z1 = Max (set segmented_slices)"
    and "Z = int (length (seg st))"
  shows "\<exists>st' ml mu cs.
    segment_volume segment_from_mask segmented_slices stop_lower stop_upper iou_threshold
      projection st = (None, st') \<and>
    0 \<le> ml \<and> ml \<le> z0 \<and> z1 \<le> mu \<and> mu < Z \<and>
    (ml < z0 \<longrightarrow> 0 < z0 \<and> \<not> stop_lower) \<and> (z1 < mu \<longrightarrow> z1 < Z - 1 \<and> \<not> stop_upper) \<and>
    writes st' = writes st @ rev [ml..z0 - 1] @ [z1 + 1..mu] @ map snd cs \<and>
    calls st' = calls st @
      map (\<lambda>z. (slice_at st' (z + 1), z))
        (rev [(if 0 < z0 \<and> \<not> stop_lower \<and> 0 < ml then ml - 1 else ml)..z0 - 1]) @
      map (\<lambda>z. (slice_at st' (z - 1), z))
        [z1 + 1..(if z1 < Z - 1 \<and> \<not> stop_upper \<and> mu < Z - 1 then mu + 1 else mu)] @ cs \<and>
    ((\<exists>p. (p, z0 - 1) \<in> set (drop (length (calls st)) (calls st'))) \<longleftrightarrow>
       0 < z0 \<and> \<not> stop_lower) \<and>
    ((\<exists>p. (p, z1 + 1) \<in> set (drop (length (calls st)) (calls st'))) \<longleftrightarrow>
       z1 < Z - 1 \<and> \<not> stop_upper) \<and>
    distinct (map snd cs) \<and>
    set (map snd cs) = {z. z0 < z \<and> z < z1 \<and> z \<notin> set segmented_slices} \<and>
    (\<forall>z. ml \<le> z \<and> z < z0 \<longrightarrow>
       slice_at st' z = orc (slice_at st' (z + 1)) z \<and>
       \<not> compute_iou (slice_at st' (z + 1)) (slice_at st' z) < iou_threshold) \<and>
    (0 < z0 \<and> \<not> stop_lower \<and> 0 < ml \<longrightarrow>
       compute_iou (slice_at st' ml) (orc (slice_at st' ml) (ml - 1)) < iou_threshold) \<and>
    (\<forall>z. z1 < z \<and> z \<le> mu \<longrightarrow>
       slice_at st' z = orc (slice_at st' (z - 1)) z \<and>
       \<not> compute_iou (slice_at st' (z - 1)) (slice_at st' z) < iou_threshold) \<and>
    (z1 < Z - 1 \<and> \<not> stop_upper \<and> mu < Z - 1 \<longrightarrow>
       compute_iou (slice_at st' mu) (orc (slice_at st' mu) (mu + 1)) < iou_threshold) \<and>
    (\<forall>i. (0 \<le> i \<and> i < ml) \<or> (mu < i \<and> i < Z) \<longrightarrow> slice_at st' i = slice_at st i)"
proof -
  from assms(1) obtain x xs where xs: "segmented_slices = x # xs"
    by (cases segmented_slices) (auto simp: annotated_def)
  from assms(1) have srt: "sorted_wrt (<) (x # xs)" by (simp add: annotated_def xs)
  have z0: "z0 = x" and z1: "z1 = last (x # xs)"
    using Min_strict_sorted [OF srt] Max_strict_sorted [OF srt] assms(4,5) by (simp_all add: xs)
  have g: "gaps (x # xs) = {z. x < z \<and> z < z1 \<and> z \<notin> set (x # xs)}"
    using gaps_char [OF srt] by (simp add: z1 del: last.simps)
  let ?lb = "if 0 < x \<and> \<not> stop_lower \<and> 0 < ml then ml - 1 else ml"
  from volume_post [where sfm = segment_from_mask and projection = projection and orc = orc
      and x = x and xs = xs and st = st and ?z1.0 = z1 and Z = Z and stop_lower = stop_lower
      and stop_upper = stop_upper and thr = iou_threshold,
      OF assms(1) [unfolded xs] assms(2,3) z1 assms(6)]
  obtain st' ml mu cs where
    run: "segment_volume segment_from_mask (x # xs) stop_lower stop_upper iou_threshold
      projection st = (None, st')"
    and b: "0 \<le> ml" "ml \<le> x" "z1 \<le> mu" "mu < Z"
      "ml < x \<longrightarrow> 0 < x \<and> \<not> stop_lower" "z1 < mu \<longrightarrow> z1 < Z - 1 \<and> \<not> stop_upper"
    and wr: "writes st' = writes st @ rev [ml..x - 1] @ [z1 + 1..mu] @ map snd cs"
    and cl: "calls st' = calls st @
      map (\<lambda>z. (slice_at st' (z + 1), z))
        (rev [(if 0 < x \<and> \<not> stop_lower \<and> 0 < ml then ml - 1 else ml)..x - 1]) @
      map (\<lambda>z. (slice_at st' (z - 1), z))
        [z1 + 1..(if z1 < Z - 1 \<and> \<not> stop_upper \<and> mu < Z - 1 then mu + 1 else mu)] @ cs"
    and ds: "distinct (map snd cs)"
      "set (map snd cs) = {z. x < z \<and> z < z1 \<and> z \<notin> set (x # xs)}"
    and ctA: "\<forall>z. ml \<le> z \<and> z < x \<longrightarrow>
       slice_at st' z = orc (slice_at st' (z + 1)) z \<and>
       \<not> compute_iou (slice_at st' (z + 1)) (slice_at st' z) < iou_threshold"
    and spA: "0 < x \<and> \<not> stop_lower \<and> 0 < ml \<longrightarrow>
       compute_iou (slice_at st' ml) (orc (slice_at st' ml) (ml - 1)) < iou_threshold"
    and ctB: "\<forall>z. z1 < z \<and> z \<le> mu \<longrightarrow>
       slice_at st' z = orc (slice_at st' (z - 1)) z \<and>
       \<not> compute_iou (slice_at st' (z - 1)) (slice_at st' z) < iou_threshold"
    and spB: "z1 < Z - 1 \<and> \<not> stop_upper \<and> mu < Z - 1 \<longrightarrow>
       compute_iou (slice_at st' mu) (orc (slice_at st' mu) (mu + 1)) < iou_threshold"
    and fr: "\<forall>i. 0 \<le> i \<and> \<not> (ml \<le> i \<and> i < x) \<and> \<not> (z1 < i \<and> i \<le> mu) \<and> i \<notin> gaps (x # xs) \<longrightarrow>
       slice_at st' i = slice_at st i"
    unfolding g by blast
  have z01: "x \<le> z1"
    using last_strict_sorted [OF srt, of x] by (simp add: z1 del: last.simps)
  have incs: "\<And>p z. (p, z) \<in> set cs \<Longrightarrow> x < z \<and> z < z1"
  proof -
    fix p z assume "(p, z) \<in> set cs"
    then have "z \<in> set (map snd cs)" by force
    with ds(2) show "x < z \<and> z < z1" by simp
  qed
  have dr: "drop (length (calls st)) (calls st') =
      map (\<lambda>z. (slice_at st' (z + 1), z))
        (rev [(if 0 < x \<and> \<not> stop_lower \<and> 0 < ml then ml - 1 else ml)..x - 1]) @
      map (\<lambda>z. (slice_at st' (z - 1), z))
        [z1 + 1..(if z1 < Z - 1 \<and> \<not> stop_upper \<and> mu < Z - 1 then mu + 1 else mu)] @ cs"
    using cl by simp
  have lowrun: "(\<exists>p. (p, x - 1) \<in> set (drop (length (calls st)) (calls st'))) \<longleftrightarrow>
       0 < x \<and> \<not> stop_lower"
  proof
    assume "\<exists>p. (p, x - 1) \<in> set (drop (length (calls st)) (calls st'))"
    then obtain p where "(p, x - 1) \<in> set (drop (length (calls st)) (calls st'))" ..
    then consider
      "x - 1 \<in> set [(if 0 < x \<and> \<not> stop_lower \<and> 0 < ml then ml - 1 else ml)..x - 1]"
      | "x - 1 \<in> set [z1 + 1..(if z1 < Z - 1 \<and> \<not> stop_upper \<and> mu < Z - 1 then mu + 1 else mu)]"
      | "(p, x - 1) \<in> set cs"
      unfolding dr by auto
    then show "0 < x \<and> \<not> stop_lower"
    proof cases
      case 1
      with b show ?thesis by (auto split: if_splits)
    next
      case 2
      with z01 show ?thesis by simp
    next
      case 3
      from incs [OF this] show ?thesis by simp
    qed
  next
    assume r: "0 < x \<and> \<not> stop_lower"
    with b have "x - 1 \<in> set (rev [(if 0 < x \<and> \<not> stop_lower \<and> 0 < ml then ml - 1 else ml)..x - 1])"
      by auto
    then have "(\<lambda>z. (slice_at st' (z + 1), z)) (x - 1) \<in> set (map (\<lambda>z. (slice_at st' (z + 1), z))
        (rev [(if 0 < x \<and> \<not> stop_lower \<and> 0 < ml then ml - 1 else ml)..x - 1]))"
      unfolding set_map by (rule imageI)
    then have "(slice_at st' (x - 1 + 1), x - 1) \<in> set (drop (length (calls st)) (calls st'))"
      unfolding dr set_append by blast
    then show "\<exists>p. (p, x - 1) \<in> set (drop (length (calls st)) (calls st'))" ..
  qed
  have uprun: "(\<exists>p. (p, z1 + 1) \<in> set (drop (length (calls st)) (calls st'))) \<longleftrightarrow>
       z1 < Z - 1 \<and> \<not> stop_upper"
  proof
    assume "\<exists>p. (p, z1 + 1) \<in> set (drop (length (calls st)) (calls st'))"
    then obtain p where "(p, z1 + 1) \<in> set (drop (length (calls st)) (calls st'))" ..
    then consider
      "z1 + 1 \<in> set [(if 0 < x \<and> \<not> stop_lower \<and> 0 < ml then ml - 1 else ml)..x - 1]"
      | "z1 + 1 \<in> set [z1 + 1..(if z1 < Z - 1 \<and> \<not> stop_upper \<and> mu < Z - 1 then mu + 1 else mu)]"
      | "(p, z1 + 1) \<in> set cs"
      unfolding dr by auto
    then show "z1 < Z - 1 \<and> \<not> stop_upper"
    proof cases
      case 1
      with z01 show ?thesis by simp
    next
      case 2
      with b show ?thesis by (auto split: if_splits)
    next
      case 3
      from incs [OF this] show ?thesis by simp
    qed
  next
    assume r: "z1 < Z - 1 \<and> \<not> stop_upper"
    with b have "z1 + 1 \<in> set [z1 + 1..(if z1 < Z - 1 \<and> \<not> stop_upper \<and> mu < Z - 1 then mu + 1 else mu)]"
      by auto
    then have "(\<lambda>z. (slice_at st' (z - 1), z)) (z1 + 1) \<in> set (map (\<lambda>z. (slice_at st' (z - 1), z))
        [z1 + 1..(if z1 < Z - 1 \<and> \<not> stop_upper \<and> mu < Z - 1 then mu + 1 else mu)])"
      unfolding set_map by (rule imageI)
    then have "(slice_at st' (z1 + 1 - 1), z1 + 1) \<in> set (drop (length (calls st)) (calls st'))"
      unfolding dr set_append by blast
    then show "\<exists>p. (p, z1 + 1) \<in> set (drop (length (calls st)) (calls st'))" ..
  qed
  have fr': "\<forall>i. (0 \<le> i \<and> i < ml) \<or> (mu < i \<and> i < Z) \<longrightarrow> slice_at st' i = slice_at st i"
  proof (intro allI impI)
    fix i assume i: "(0 \<le> i \<and> i < ml) \<or> (mu < i \<and> i < Z)"
    with b z01 have "0 \<le> i" "\<not> (ml \<le> i \<and> i < x)" "\<not> (z1 < i \<and> i \<le> mu)"
      "\<not> (x < i \<and> i < z1)" using assms(1) by (auto simp: annotated_def xs)
    moreover from this(4) g have "i \<notin> gaps (x # xs)" by blast
    ultimately show "slice_at st' i = slice_at st i" using fr by blast
  qed
  show ?thesis
    unfolding xs z0 using run b wr cl lowrun uprun ds ctA spA ctB spB fr' by blast
qed

text \<open>
  The example of the specification: slice 2 of five is annotated, the threshold is 0.99
  and the oracle returns an empty mask after the first step on each side. Each outward
  walk writes one slice and stops.
\<close>

theorem C2_outward_extension_witness:
  "annotated [2] (volume [mZ, mZ, mA, mZ, mZ]) \<and>
   (\<exists>st' ml mu cs.
      segment_volume fading [2] False False (99 / 100) ''mask'' (volume [mZ, mZ, mA, mZ, mZ])
        = (None, st') \<and>
      0 \<le> ml \<and> ml \<le> 2 \<and> 2 \<le> mu \<and> mu < 5 \<and>
      writes st' = rev [ml..1] @ [3..mu] @ map snd (cs :: (mask \<times> int) list) \<and>
      set (map snd cs) = {}) \<and>
   segment_volume fading [2] False False (99 / 100) ''mask'' (volume [mZ, mZ, mA, mZ, mZ]) =
     (None, \<lparr>seg = [mZ, mA, mA, mA, mZ], progress_bar = Some 2, writes = [1, 3],
             calls = [(mA, 1), (mA, 0), (mA, 3), (mA, 4)]\<rparr>)"
proof (intro conjI)
  show a: "annotated [2] (volume [mZ, mZ, mA, mZ, mZ])"
    by (simp add: annotated_def volume_def)
  have h: "''mask'' = ''mask'' \<or> ''mask'' = ''bounding_box''"
    "fading True True = fading (''mask'' = ''mask'') True"
    "(2::int) = Min (set [2])" "(2::int) = Max (set [2])"
    "(5::int) = int (length (seg (volume [mZ, mZ, mA, mZ, mZ])))"
    by (simp_all add: volume_def)
  from C2_outward_extension [where segment_from_mask = fading and projection = "''mask''"
      and orc = "fading True True" and segmented_slices = "[2]" and ?z0.0 = 2 and ?z1.0 = 2
      and Z = 5 and st = "volume [mZ, mZ, mA, mZ, mZ]" and stop_lower = False
      and stop_upper = False and iou_threshold = "99 / 100", OF a h]
  obtain st' ml mu cs where
    r: "segment_volume fading [2] False False (99 / 100) ''mask'' (volume [mZ, mZ, mA, mZ, mZ])
        = (None, st')"
    and b: "0 \<le> ml" "ml \<le> 2" "2 \<le> mu" "mu < 5"
    and w: "writes st' = writes (volume [mZ, mZ, mA, mZ, mZ]) @
        rev [ml..2 - 1] @ [2 + 1..mu] @ map snd cs"
    and g: "set (map snd (cs :: (mask \<times> int) list)) = {z. 2 < z \<and> z < 2 \<and> z \<notin> set [2]}"
    by (elim exE conjE) (rule that)
  from w have w': "writes st' = rev [ml..1] @ [3..mu] @ map snd cs"
    by (simp add: volume_def)
  from g have g': "set (map snd cs) = {}" by auto
  from r b w' g'
  show "\<exists>st' ml mu cs.
      segment_volume fading [2] False False (99 / 100) ''mask'' (volume [mZ, mZ, mA, mZ, mZ])
        = (None, st') \<and>
      0 \<le> ml \<and> ml \<le> 2 \<and> 2 \<le> mu \<and> mu < 5 \<and>
      writes st' = rev [ml..1] @ [3..mu] @ map snd (cs :: (mask \<times> int) list) \<and>
      set (map snd cs) = {}"
    by blast
  show "segment_volume fading [2] False False (99 / 100) ''mask'' (volume [mZ, mZ, mA, mZ, mZ]) =
     (None, \<lparr>seg = [mZ, mA, mA, mA, mZ], progress_bar = Some 2, writes = [1, 3],
             calls = [(mA, 1), (mA, 0), (mA, 3), (mA, 4)]\<rparr>)"
    by (simp add: example_defs fading_def engine_defs segment_range_loop.simps)
qed

section \<open>Annotated slices are never written\<close>

text \<open>
  C10. For annotated slices that satisfy the data model (not empty, strictly ascending,
  inside the volume), whatever the other arguments: every index the call writes is a
  slice of the volume that is not annotated, and lies below the lowest annotated slice,
  above the highest one, or strictly between two consecutive annotated slices; a slice
  that is not in the write log has the mask it had before the call; so the masks at all
  annotated slices are unchanged when the call returns. With an unrecognised projection
  mode the call fails before it writes anything.
\<close>

theorem C10_annotated_slices_untouched:
  assumes "annotated segmented_slices st"
  shows "\<exists>e st' ws.
     segment_volume segment_from_mask segmented_slices stop_lower stop_upper iou_threshold
       projection st = (e, st') \<and>
     length (seg st') = length (seg st) \<and>
     writes st' = writes st @ ws \<and>
     (\<forall>w\<in>set ws. 0 \<le> w \<and> w < int (length (seg st)) \<and> w \<notin> set segmented_slices \<and>
        (w < Min (set segmented_slices) \<or> Max (set segmented_slices) < w \<or>
         (\<exists>i. Suc i < length segmented_slices \<and>
              segmented_slices ! i < w \<and> w < segmented_slices ! Suc i))) \<and>
     (\<forall>i. 0 \<le> i \<and> i < int (length (seg st)) \<and> i \<notin> set ws \<longrightarrow>
        slice_at st' i = slice_at st i) \<and>
     (\<forall>z\<in>set segmented_slices. slice_at st' z = slice_at st z)"
proof (cases "projection = ''mask'' \<or> projection = ''bounding_box''")
  case False
  then have "segment_volume segment_from_mask segmented_slices stop_lower stop_upper
      iou_threshold projection st = (Some InvalidProjection, st)"
    by (simp add: segment_volume_def)
  then show ?thesis
    by (intro exI [of _ "Some InvalidProjection"] exI [of _ st] exI [of _ "[]"]) simp
next
  case True
  from assms obtain x xs where xs: "segmented_slices = x # xs"
    by (cases segmented_slices) (auto simp: annotated_def)
  from assms have srt: "sorted_wrt (<) (x # xs)"
    and rng: "\<forall>a\<in>set (x # xs). 0 \<le> a \<and> a < int (length (seg st))"
    by (simp_all add: annotated_def xs)
  define z1 where "z1 = last (x # xs)"
  have mm: "Min (set (x # xs)) = x" "Max (set (x # xs)) = z1"
    using Min_strict_sorted [OF srt] Max_strict_sorted [OF srt] by (simp_all add: z1_def)
  have le: "\<And>a. a \<in> set (x # xs) \<Longrightarrow> x \<le> a \<and> a \<le> z1"
    using last_strict_sorted [OF srt] srt by (auto simp: z1_def simp del: last.simps)
  have zz: "0 \<le> x" "z1 < int (length (seg st))"
    using rng last_in_set [of "x # xs"] by (auto simp: z1_def simp del: last.simps)
  from volume_post [where sfm = segment_from_mask and projection = projection
      and orc = "segment_from_mask (projection = ''mask'') True"
      and x = x and xs = xs and st = st and ?z1.0 = z1 and Z = "int (length (seg st))"
      and stop_lower = stop_lower and stop_upper = stop_upper and thr = iou_threshold,
      OF assms [unfolded xs] True refl z1_def refl]
  obtain st' ml mu cs where
    run: "segment_volume segment_from_mask (x # xs) stop_lower stop_upper iou_threshold
      projection st = (None, st')"
    and len: "length (seg st') = length (seg st)"
    and b: "0 \<le> ml" "ml \<le> x" "z1 \<le> mu" "mu < int (length (seg st))"
      "ml < x \<longrightarrow> 0 < x \<and> \<not> stop_lower"
      "z1 < mu \<longrightarrow> z1 < int (length (seg st)) - 1 \<and> \<not> stop_upper"
    and wr: "writes st' = writes st @ rev [ml..x - 1] @ [z1 + 1..mu] @ map snd cs"
    and cl: "calls st' = calls st @
      map (\<lambda>z. (slice_at st' (z + 1), z))
        (rev [(if 0 < x \<and> \<not> stop_lower \<and> 0 < ml then ml - 1 else ml)..x - 1]) @
      map (\<lambda>z. (slice_at st' (z - 1), z))
        [z1 + 1..(if z1 < int (length (seg st)) - 1 \<and> \<not> stop_upper \<and>
                    mu < int (length (seg st)) - 1 then mu + 1 else mu)] @ cs"
    and ds: "distinct (map snd cs)"
    and g: "set (map snd cs) = gaps (x # xs)"
    and rest: "(\<forall>z. ml \<le> z \<and> z < x \<longrightarrow>
       slice_at st' z = segment_from_mask (projection = ''mask'') True (slice_at st' (z + 1)) z \<and>
       \<not> compute_iou (slice_at st' (z + 1)) (slice_at st' z) < iou_threshold)"
      "(0 < x \<and> \<not> stop_lower \<and> 0 < ml \<longrightarrow>
       compute_iou (slice_at st' ml)
         (segment_from_mask (projection = ''mask'') True (slice_at st' ml) (ml - 1)) < iou_threshold)"
      "(\<forall>z. z1 < z \<and> z \<le> mu \<longrightarrow>
       slice_at st' z = segment_from_mask (projection = ''mask'') True (slice_at st' (z - 1)) z \<and>
       \<not> compute_iou (slice_at st' (z - 1)) (slice_at st' z) < iou_threshold)"
      "(z1 < int (length (seg st)) - 1 \<and> \<not> stop_upper \<and> mu < int (length (seg st)) - 1 \<longrightarrow>
       compute_iou (slice_at st' mu)
         (segment_from_mask (projection = ''mask'') True (slice_at st' mu) (mu + 1)) < iou_threshold)"
    and fr: "\<forall>i. 0 \<le> i \<and> \<not> (ml \<le> i \<and> i < x) \<and> \<not> (z1 < i \<and> i \<le> mu) \<and> i \<notin> gaps (x # xs) \<longrightarrow>
       slice_at st' i = slice_at st i"
    by (elim exE conjE) (rule that)
  let ?ws = "rev [ml..x - 1] @ [z1 + 1..mu] @ map snd cs"
  have inws: "\<And>w. w \<in> set ?ws \<longleftrightarrow> (ml \<le> w \<and> w < x) \<or> (z1 < w \<and> w \<le> mu) \<or> w \<in> gaps (x # xs)"
    unfolding set_append g by auto
  have c1: "\<forall>w\<in>set ?ws. 0 \<le> w \<and> w < int (length (seg st)) \<and> w \<notin> set (x # xs) \<and>
        (w < Min (set (x # xs)) \<or> Max (set (x # xs)) < w \<or>
         (\<exists>i. Suc i < length (x # xs) \<and> (x # xs) ! i < w \<and> w < (x # xs) ! Suc i))"
  proof
    fix w assume "w \<in> set ?ws"
    then consider (low) "ml \<le> w \<and> w < x" | (high) "z1 < w \<and> w \<le> mu" | (mid) "w \<in> gaps (x # xs)"
      unfolding inws by blast
    then show "0 \<le> w \<and> w < int (length (seg st)) \<and> w \<notin> set (x # xs) \<and>
        (w < Min (set (x # xs)) \<or> Max (set (x # xs)) < w \<or>
         (\<exists>i. Suc i < length (x # xs) \<and> (x # xs) ! i < w \<and> w < (x # xs) ! Suc i))"
    proof cases
      case low
      moreover from low le have "w \<notin> set (x # xs)" by fastforce
      ultimately show ?thesis unfolding mm using b zz le [of x] by auto
    next
      case high
      moreover from high le have "w \<notin> set (x # xs)" by fastforce
      ultimately show ?thesis unfolding mm using b zz le [of x] by auto
    next
      case mid
      from gaps_inside [OF srt mid] have i: "x < w" "w < z1" "w \<notin> set (x # xs)"
        by (simp_all add: z1_def del: last.simps)
      with gaps_index [OF mid] zz show ?thesis by auto
    qed
  qed
  have c2: "\<forall>i. 0 \<le> i \<and> i < int (length (seg st)) \<and> i \<notin> set ?ws \<longrightarrow>
        slice_at st' i = slice_at st i"
    using fr unfolding inws by blast
  have c3: "\<forall>z\<in>set (x # xs). slice_at st' z = slice_at st z"
  proof
    fix z assume z: "z \<in> set (x # xs)"
    with c1 have "z \<notin> set ?ws" by blast
    moreover from z rng have "0 \<le> z" "z < int (length (seg st))" by auto
    ultimately show "slice_at st' z = slice_at st z" using c2 by blast
  qed
  show ?thesis
    unfolding xs using run len wr c1 c2 c3
    by (intro exI [of _ None] exI [of _ st'] exI [of _ ?ws]) blast
qed

theorem C10_annotated_slices_untouched_witness:
  "annotated [2, 7] (volume vol10) \<and>
   (\<exists>e st' ws. segment_volume stub [2, 7] False False 0 ''mask'' (volume vol10) = (e, st') \<and>
      writes st' = ws \<and> 2 \<notin> set ws \<and> 7 \<notin> set ws \<and>
      slice_at st' 2 = mA \<and> slice_at st' 7 = mB)"
proof
  show a: "annotated [2, 7] (volume vol10)"
    by (simp add: annotated_def volume_def vol10_def)
  from C10_annotated_slices_untouched [OF a, of stub False False 0 "''mask''"]
  obtain e st' ws where
    r: "segment_volume stub [2, 7] False False 0 ''mask'' (volume vol10) = (e, st')"
    and w: "writes st' = writes (volume vol10) @ ws"
    and n: "\<forall>w\<in>set ws. 0 \<le> w \<and> w < int (length (seg (volume vol10))) \<and> w \<notin> set [2, 7] \<and>
        (w < Min (set [2, 7]) \<or> Max (set [2, 7]) < w \<or>
         (\<exists>i. Suc i < length [2 :: int, 7] \<and> [2, 7] ! i < w \<and> w < [2, 7] ! Suc i))"
    and u: "\<forall>z\<in>set [2, 7]. slice_at st' z = slice_at (volume vol10) z"
    by (elim exE conjE) (rule that)
  from w have w': "writes st' = ws" by (simp add: volume_def)
  from n have n': "2 \<notin> set ws" "7 \<notin> set ws" by auto
  from u have u': "slice_at st' 2 = mA" "slice_at st' 7 = mB"
    by (simp_all add: volume_def vol10_def slice_at_def)
  from r w' n' u'
  show "\<exists>e st' ws. segment_volume stub [2, 7] False False 0 ''mask'' (volume vol10) = (e, st') \<and>
      writes st' = ws \<and> 2 \<notin> set ws \<and> 7 \<notin> set ws \<and>
      slice_at st' 2 = mA \<and> slice_at st' 7 = mB"
    by blast
qed

section \<open>Progress units\<close>

text \<open>
  C8, evaluated. In \<open>segment_range\<close> the progress call comes after the test of the
  stopping criterion, so the last slice a walk writes before its criterion holds gets no
  unit. With slice 1 of two annotated and the stub oracle, slice 0 is written and the
  sink receives nothing. In the end-to-end example of the specification (slices 2 and 7
  of ten annotated, threshold 0) eight slices are written and the sink receives four
  units.
\<close>

theorem C8_progress_misses_last_slice:
  "segment_volume stub [1] False True 0 ''mask'' (volume [mZ, mA]) =
     (None, \<lparr>seg = [mA, mA], progress_bar = Some 0, writes = [0], calls = [(mA, 0)]\<rparr>)
   \<and> writes (snd (segment_volume stub [2, 7] False False 0 ''mask'' (volume vol10)))
        = [1, 0, 8, 9, 3, 4, 6, 5]
   \<and> progress_bar (snd (segment_volume stub [2, 7] False False 0 ''mask'' (volume vol10)))
        = Some 4"
  by (simp add: example_defs engine_defs segment_range_loop.simps)

section \<open>The overlap metric\<close>



lemma finite_fg: "finite (fg m)"
proof -
  have "fg m \<subseteq> (SIGMA r:{0..<length m}. {c. c < length (m ! r)})"
    by (auto simp: fg_def)
  then show ?thesis by (rule finite_subset) simp
qed








section \<open>The slice loop of the cache\<close>

lemma count_nonzero_zeros [simp]: "count_nonzero (replicate m 0) = 0"
  by (simp add: count_nonzero_def)

lemma loop_append:
  "precompute_3d_loop p n z (xs @ ys) sizes w =
     (case precompute_3d_loop p n z xs sizes w of
        (None, s1, w1) \<Rightarrow> precompute_3d_loop p n (z + length xs) ys s1 w1
      | (Some e, s1, w1) \<Rightarrow> (Some e, s1, w1))"
proof (induction xs arbitrary: z sizes w)
  case Nil
  then show ?case by simp
next
  case (Cons x xs)
  have e: "z + length (x # xs) = Suc z + length xs" by simp
  show ?case
    unfolding e
    by (simp add: Cons.IH Let_def split: option.splits sum.splits bool.splits)
qed

lemma loop_meta:
  "precompute_3d_loop p n z xs sizes w = (e, sizes', w') \<Longrightarrow>
     attrs w' = attrs w \<and> attr_writes w' = attr_writes w \<and>
     (\<exists>cs. encoder_calls w' = encoder_calls w @ cs \<and>
        sizes' = (if cs = [] then sizes else slice_sizes p (last cs)))"
proof (induction xs arbitrary: z sizes w)
  case Nil
  then show ?case by simp
next
  case (Cons x xs)
  let ?img = "grey_to_rgb p x"
  let ?w1 = "w\<lparr>encoder_calls := encoder_calls w @ [?img]\<rparr>"
  consider (err) "e = Some ChunkOutOfRange" "sizes' = sizes" "w' = w"
    | (skip) "precompute_3d_loop p n (Suc z) xs sizes w = (e, sizes', w')"
    | (err2) fs where "sizes' = slice_sizes p ?img" "w' = ?w1\<lparr>features := Some fs\<rparr>"
    | (comp) fs where "precompute_3d_loop p n (Suc z) xs (slice_sizes p ?img)
          (?w1\<lparr>features := Some fs\<rparr>) = (e, sizes', w')"
    using Cons.prems
    by (auto simp: Let_def slice_sizes_def split: option.splits sum.splits bool.splits if_splits)
  then show ?case
  proof cases
    case err
    then show ?thesis by simp
  next
    case skip
    from Cons.IH [OF this] show ?thesis .
  next
    case err2
    then show ?thesis by (auto intro: exI [of _ "[?img]"])
  next
    case comp
    from Cons.IH [OF this] obtain cs where
      a: "attrs w' = attrs w" "attr_writes w' = attr_writes w"
      and c: "encoder_calls w' = encoder_calls w @ [?img] @ cs"
      and s: "sizes' = (if cs = [] then slice_sizes p ?img else slice_sizes p (last cs))"
      by auto
    from s have "sizes' = (if [?img] @ cs = [] then sizes else slice_sizes p (last ([?img] @ cs)))"
      by simp
    with a c show ?thesis by blast
  qed
qed

lemma loop_calls_from_slices:
  "precompute_3d_loop p n z xs sizes w = (e, sizes', w') \<Longrightarrow>
     \<exists>cs. encoder_calls w' = encoder_calls w @ cs \<and> set cs \<subseteq> grey_to_rgb p ` set xs"
proof (induction xs arbitrary: z sizes w)
  case Nil
  then show ?case by simp
next
  case (Cons x xs)
  let ?img = "grey_to_rgb p x"
  let ?w1 = "w\<lparr>encoder_calls := encoder_calls w @ [?img]\<rparr>"
  consider (err) "e = Some ChunkOutOfRange" "sizes' = sizes" "w' = w"
    | (skip) "precompute_3d_loop p n (Suc z) xs sizes w = (e, sizes', w')"
    | (err2) fs where "sizes' = slice_sizes p ?img" "w' = ?w1\<lparr>features := Some fs\<rparr>"
    | (comp) fs where "precompute_3d_loop p n (Suc z) xs (slice_sizes p ?img)
          (?w1\<lparr>features := Some fs\<rparr>) = (e, sizes', w')"
    using Cons.prems
    by (auto simp: Let_def slice_sizes_def split: option.splits sum.splits bool.splits if_splits)
  then show ?case
  proof cases
    case err
    then have "encoder_calls w' = encoder_calls w @ [] \<and>
        set [] \<subseteq> grey_to_rgb p ` set (x # xs)"
      by simp
    then show ?thesis ..
  next
    case skip
    from Cons.IH [OF this] obtain cs where
      "encoder_calls w' = encoder_calls w @ cs" "set cs \<subseteq> grey_to_rgb p ` set xs"
      by blast
    then have "encoder_calls w' = encoder_calls w @ cs \<and>
        set cs \<subseteq> grey_to_rgb p ` set (x # xs)"
      by auto
    then show ?thesis ..
  next
    case err2
    then have "encoder_calls w' = encoder_calls w @ [?img] \<and>
        set [?img] \<subseteq> grey_to_rgb p ` set (x # xs)"
      by simp
    then show ?thesis ..
  next
    case comp
    from Cons.IH [OF this] obtain cs where
      c0: "encoder_calls w' = encoder_calls (?w1\<lparr>features := Some fs\<rparr>) @ cs"
      and s: "set cs \<subseteq> grey_to_rgb p ` set xs"
      by blast
    from c0 have c: "encoder_calls w' = encoder_calls w @ ([?img] @ cs)" by simp
    from s have "set ([?img] @ cs) \<subseteq> grey_to_rgb p ` set (x # xs)" by auto
    with c have "encoder_calls w' = encoder_calls w @ ([?img] @ cs) \<and>
        set ([?img] @ cs) \<subseteq> grey_to_rgb p ` set (x # xs)"
      by simp
    then show ?thesis ..
  qed
qed

lemma loop_sizes_irrelevant:
  "fst (precompute_3d_loop p n z xs sizes w) = fst (precompute_3d_loop p n z xs sizes2 w) \<and>
   snd (snd (precompute_3d_loop p n z xs sizes w)) = snd (snd (precompute_3d_loop p n z xs sizes2 w))"
proof (induction xs arbitrary: z sizes sizes2 w)
  case Nil
  then show ?case by simp
next
  case (Cons x xs)
  show ?case
    using Cons.IH
    by (simp add: Let_def split: option.splits sum.splits bool.splits)
qed

lemma loop_skip:
  "features w = Some fs \<Longrightarrow>
   \<forall>j. z \<le> j \<and> j < z + length xs \<longrightarrow> j < length fs \<and> count_nonzero (fs ! j) \<noteq> 0 \<Longrightarrow>
   precompute_3d_loop p n z xs sizes w = (None, sizes, w)"
proof (induction xs arbitrary: z)
  case Nil
  then show ?case by simp
next
  case (Cons x xs)
  from Cons.prems(2) have "z < length fs \<and> count_nonzero (fs ! z) \<noteq> 0" by simp
  moreover have "precompute_3d_loop p n (Suc z) xs sizes w = (None, sizes, w)"
    using Cons.prems by (intro Cons.IH) auto
  ultimately show ?case using Cons.prems(1) by simp
qed

lemma replicate_update_0: "0 < m \<Longrightarrow> (replicate m a)[0 := b] = b # replicate (m - 1) a"
  by (cases m) simp_all

lemma loop_one_fresh:
  assumes "features w = None" "0 < n"
  shows "precompute_3d_loop p n 0 [x] sizes w =
     (None, slice_sizes p (grey_to_rgb p x),
      w\<lparr>encoder_calls := encoder_calls w @ [grey_to_rgb p x],
        features := Some (embed_slice p x #
           replicate (n - 1) (replicate (length (embed_slice p x)) 0))\<rparr>)"
  using assms
  by (simp add: Let_def slice_sizes_def embed_slice_def replicate_update_0)

lemma loop_one_zero:
  assumes "features w = Some (pre @ replicate m zs)" "length pre = k" "0 < m"
    "count_nonzero zs = 0"
  shows "precompute_3d_loop p n k [x] sizes w =
     (None, slice_sizes p (grey_to_rgb p x),
      w\<lparr>encoder_calls := encoder_calls w @ [grey_to_rgb p x],
        features := Some (pre @ embed_slice p x # replicate (m - 1) zs)\<rparr>)"
proof -
  have "(pre @ replicate m zs) ! k = zs" using assms(2,3) by (simp add: nth_append)
  moreover have "(pre @ replicate m zs)[k := embed_slice p x] =
      pre @ embed_slice p x # replicate (m - 1) zs"
    using assms(2,3) by (simp add: list_update_append replicate_update_0)
  ultimately show ?thesis
    using assms by (simp add: Let_def slice_sizes_def embed_slice_def)
qed

lemma prefix_run:
  assumes fresh: "features w0 = None"
  shows "k \<le> length input \<Longrightarrow>
     \<exists>sizes' wk. precompute_3d_loop p (length input) 0 (take k input) sizes w0 = (None, sizes', wk) \<and>
       features wk = after_slices p input k \<and>
       encoder_calls wk = encoder_calls w0 @ map (grey_to_rgb p) (take k input) \<and>
       attrs wk = attrs w0 \<and> attr_writes wk = attr_writes w0"
proof (induction k)
  case 0
  with fresh show ?case by (simp add: after_slices_def)
next
  case (Suc k)
  then have k: "k < length input" by simp
  from Suc.IH k obtain s1 wk where
    run: "precompute_3d_loop p (length input) 0 (take k input) sizes w0 = (None, s1, wk)"
    and f: "features wk = after_slices p input k"
    and c: "encoder_calls wk = encoder_calls w0 @ map (grey_to_rgb p) (take k input)"
    and a: "attrs wk = attrs w0" "attr_writes wk = attr_writes w0"
    by auto
  let ?x = "input ! k"
  have tk: "take (Suc k) input = take k input @ [?x]"
    using k by (simp add: take_Suc_conv_app_nth)
  have len: "length (take k input) = k" using k by simp
  have step: "\<exists>s2 w2. precompute_3d_loop p (length input) k [?x] s1 wk = (None, s2, w2) \<and>
      features w2 = after_slices p input (Suc k) \<and>
      encoder_calls w2 = encoder_calls wk @ [grey_to_rgb p ?x] \<and>
      attrs w2 = attrs wk \<and> attr_writes w2 = attr_writes wk"
  proof (cases "k = 0")
    case True
    with f have fn: "features wk = None" by (simp add: after_slices_def)
    have h: "hd input = input ! 0" using k by (cases input) simp_all
    have t1: "take (Suc 0) input = [input ! 0]" using k True by (cases input) simp_all
    from k have n: "0 < length input" by (cases input) simp_all
    show ?thesis
      unfolding True loop_one_fresh [OF fn n]
      using n by (auto simp add: after_slices_def zero_chunk_def h t1)
  next
    case False
    let ?pre = "map (embed_slice p) (take k input)"
    from False f have fs: "features wk = Some (?pre @ replicate (length input - k) (zero_chunk p input))"
      by (simp add: after_slices_def)
    have lp: "length ?pre = k" using len by simp
    have m: "0 < length input - k" using k by simp
    have z: "count_nonzero (zero_chunk p input) = 0" by (simp add: zero_chunk_def)
    have e: "length input - k - 1 = length input - Suc k" by simp
    show ?thesis
      unfolding loop_one_zero [OF fs lp m z]
      by (simp add: after_slices_def tk e)
  qed
  then obtain s2 w2 where
    run2: "precompute_3d_loop p (length input) k [?x] s1 wk = (None, s2, w2)"
    and f2: "features w2 = after_slices p input (Suc k)"
    and c2: "encoder_calls w2 = encoder_calls wk @ [grey_to_rgb p ?x]"
    and a2: "attrs w2 = attrs wk" "attr_writes w2 = attr_writes wk"
    by auto
  have "precompute_3d_loop p (length input) 0 (take (Suc k) input) sizes w0 = (None, s2, w2)"
    unfolding tk loop_append using run run2 len by simp
  moreover have "encoder_calls w2 = encoder_calls w0 @ map (grey_to_rgb p) (take (Suc k) input)"
    using c c2 by (simp add: tk)
  ultimately show ?case using f2 a a2 by auto
qed

section \<open>Resuming an interrupted computation\<close>

lemma has_attr_no_attrs: "attrs w = [] \<Longrightarrow> \<not> has_attr k w"
  by (simp add: has_attr_def)

lemma precompute_3d_from_loop:
  assumes "\<not> has_attr ''input_size'' w"
    and "precompute_3d_loop p (length input) 0 input (None, None) w = (None, sizes, w1)"
    and "features w1 = Some fs"
  shows "\<exists>r w'. precompute_3d p input lazy_loading w = (Inr r, w') \<and>
     r_features r = Some fs \<and> features w' = Some fs \<and> encoder_calls w' = encoder_calls w1"
  using assms
  by (cases sizes) (simp add: precompute_3d_def set_attr_def Let_def)

text \<open>
  C4. On a container without attributes and without a dataset, for a stack with at least
  one slice of which no slice embeds to all zeros: when the computation is interrupted
  after \<open>k\<close> slices and run again on the same container and stack, the second run
  returns without error; the chunks it finds as computed are exactly those of the first
  \<open>k\<close> slices; it runs the encoder on the remaining slices and on no other; and the
  features it returns and stores are those of a run that was not interrupted, namely the
  embeddings of all slices in order.
\<close>

theorem C4_resume:
  assumes fresh: "attrs w0 = []" "features w0 = None"
    and k: "k \<le> length input" and ne: "input \<noteq> []"
    and nz: "\<forall>s\<in>set input. count_nonzero (embed_slice p s) \<noteq> 0"
    and wk: "wk = interrupted p input k w0"
  shows "\<exists>r w' r0 w0'.
     precompute_3d p input lazy_loading wk = (Inr r, w') \<and>
     precompute_3d p input lazy_loading w0 = (Inr r0, w0') \<and>
     r_features r = r_features r0 \<and> features w' = features w0' \<and>
     r_features r = Some (map (embed_slice p) input) \<and>
     (\<forall>z<length input. chunk_done wk z \<longleftrightarrow> z < k) \<and>
     encoder_calls w' = encoder_calls wk @ map (grey_to_rgb p) (drop k input)"
proof -
  let ?n = "length input"
  let ?E = "embed_slice p"
  from ne have n: "0 < ?n" by simp
  \<comment> \<open>the run that is interrupted after \<open>k\<close> slices\<close>
  from prefix_run [OF fresh(2) k, where p = p and sizes = "(None, None)"] obtain sk where
    runk: "precompute_3d_loop p ?n 0 (take k input) (None, None) w0 = (None, sk, wk)"
    and fk: "features wk = after_slices p input k"
    and ck: "encoder_calls wk = encoder_calls w0 @ map (grey_to_rgb p) (take k input)"
    and ak: "attrs wk = attrs w0"
    unfolding wk interrupted_def by auto
  \<comment> \<open>the run that is not interrupted\<close>
  from prefix_run [OF fresh(2) order_refl, where input = input and p = p and sizes = "(None, None)"] obtain sn wn where
    runn: "precompute_3d_loop p ?n 0 input (None, None) w0 = (None, sn, wn)"
    and fn: "features wn = Some (map ?E input)"
    and cn: "encoder_calls wn = encoder_calls w0 @ map (grey_to_rgb p) input"
    using n by (auto simp: after_slices_def)
  from precompute_3d_from_loop [OF has_attr_no_attrs [OF fresh(1)] runn fn, where lazy_loading = lazy_loading]
  obtain r0 w0' where u: "precompute_3d p input lazy_loading w0 = (Inr r0, w0')"
    "r_features r0 = Some (map ?E input)" "features w0' = Some (map ?E input)"
    by blast
  \<comment> \<open>the uninterrupted run is the interrupted one followed by the remaining slices\<close>
  have lk: "length (take k input) = k" using k by simp
  have "precompute_3d_loop p ?n 0 (take k input @ drop k input) (None, None) w0 = (None, sn, wn)"
    using runn by simp
  then have rest: "precompute_3d_loop p ?n k (drop k input) sk wk = (None, sn, wn)"
    unfolding loop_append using runk lk by simp
  \<comment> \<open>which chunks the interrupted run left as computed\<close>
  have dn: "\<forall>z<?n. chunk_done wk z \<longleftrightarrow> z < k"
  proof (intro allI impI)
    fix z assume z: "z < ?n"
    show "chunk_done wk z \<longleftrightarrow> z < k"
    proof (cases "k = 0")
      case True
      with fk show ?thesis by (simp add: chunk_done_def after_slices_def)
    next
      case False
      show ?thesis
      proof (cases "z < k")
        case True
        with k have "input ! z \<in> set input" by simp
        with nz have "count_nonzero (?E (input ! z)) \<noteq> 0" by blast
        with True k z fk \<open>k \<noteq> 0\<close> show ?thesis
          by (simp add: chunk_done_def after_slices_def nth_append)
      next
        case False
        with k z fk \<open>k \<noteq> 0\<close> show ?thesis
          by (simp add: chunk_done_def after_slices_def nth_append zero_chunk_def)
      qed
    qed
  qed
  \<comment> \<open>the resumed run skips the first \<open>k\<close> slices\<close>
  have skip: "precompute_3d_loop p ?n 0 (take k input) (None, None) wk = (None, (None, None), wk)"
  proof (cases "k = 0")
    case True
    then show ?thesis by simp
  next
    case False
    with fk obtain fs where fs: "features wk = Some fs" "length fs = ?n"
      using k by (auto simp: after_slices_def)
    have "\<forall>j. 0 \<le> j \<and> j < 0 + length (take k input) \<longrightarrow> j < length fs \<and> count_nonzero (fs ! j) \<noteq> 0"
    proof (intro allI impI)
      fix j assume "0 \<le> j \<and> j < 0 + length (take k input)"
      then have j: "j < k" using lk by simp
      with k have jn: "j < ?n" by simp
      with dn j have "chunk_done wk j" by blast
      with fs show "j < length fs \<and> count_nonzero (fs ! j) \<noteq> 0" by (simp add: chunk_done_def)
    qed
    with fs(1) show ?thesis by (rule loop_skip)
  qed
  have "fst (precompute_3d_loop p ?n k (drop k input) (None, None) wk) = None"
    "snd (snd (precompute_3d_loop p ?n k (drop k input) (None, None) wk)) = wn"
    using loop_sizes_irrelevant [of p ?n k "drop k input" "(None, None)" wk sk] rest by simp_all
  then obtain s' where rest': "precompute_3d_loop p ?n k (drop k input) (None, None) wk = (None, s', wn)"
    by (cases "precompute_3d_loop p ?n k (drop k input) (None, None) wk") auto
  have "precompute_3d_loop p ?n 0 (take k input @ drop k input) (None, None) wk = (None, s', wn)"
    unfolding loop_append using skip rest' lk by simp
  then have runr: "precompute_3d_loop p ?n 0 input (None, None) wk = (None, s', wn)" by simp
  have nok: "\<not> has_attr ''input_size'' wk"
    using ak fresh(1) by (intro has_attr_no_attrs) simp
  from precompute_3d_from_loop [OF nok runr fn, where lazy_loading = lazy_loading]
  obtain r w' where v: "precompute_3d p input lazy_loading wk = (Inr r, w')"
    "r_features r = Some (map ?E input)" "features w' = Some (map ?E input)"
    "encoder_calls w' = encoder_calls wn"
    by blast
  have "encoder_calls w' = encoder_calls wk @ map (grey_to_rgb p) (drop k input)"
    unfolding v(4) cn ck by (simp add: map_append [symmetric] del: map_append)
  with u v dn show ?thesis by auto
qed

section \<open>Evaluating the examples of the cache\<close>

lemmas store_defs =
  precompute_image_embeddings_def precompute_3d_def precompute_2d_def load_stored_def
  has_attr_def set_attr_def count_nonzero_def embed_slice_def slice_sizes_def interrupted_def
  chunk_done_def enc_def fresh_def

text \<open>Three slices, interrupted after two: the second run encodes slice 3 only.\<close>

theorem C4_resume_witness:
  "(2::nat) \<le> length [1, 2, 3 :: nat]
   \<and> count_nonzero (embed_slice enc 1) \<noteq> 0
   \<and> count_nonzero (embed_slice enc 2) \<noteq> 0
   \<and> count_nonzero (embed_slice enc 3) \<noteq> 0
   \<and> features (interrupted enc [1, 2, 3] 2 fresh) = Some [[1, 0], [2, 0], [0, 0]]
   \<and> (\<exists>r w'. precompute_3d enc [1, 2, 3] False (interrupted enc [1, 2, 3] 2 fresh) = (Inr r, w') \<and>
         r_features r = Some [[1, 0], [2, 0], [3, 0]] \<and>
         encoder_calls w' = encoder_calls (interrupted enc [1, 2, 3] 2 fresh) @ [3])"
proof (intro conjI)
  show k: "(2::nat) \<le> length [1, 2, 3 :: nat]" by simp
  show n1: "count_nonzero (embed_slice enc 1) \<noteq> 0"
    and n2: "count_nonzero (embed_slice enc 2) \<noteq> 0"
    and n3: "count_nonzero (embed_slice enc 3) \<noteq> 0"
    by (simp_all add: store_defs)
  from n1 n2 n3
  have nz: "\<forall>s\<in>set [1, 2, 3 :: nat]. count_nonzero (embed_slice enc s) \<noteq> 0"
    by simp
  show "features (interrupted enc [1, 2, 3] 2 fresh) = Some [[1, 0], [2, 0], [0, 0]]"
    by (simp add: store_defs Let_def numeral_2_eq_2)
  have f: "attrs fresh = []" "features fresh = None" by (simp_all add: fresh_def)
  have ne: "[1, 2, 3 :: nat] \<noteq> []" by simp
  from C4_resume [OF f k ne nz refl, where lazy_loading = False]
  obtain r w' where
    "precompute_3d enc [1, 2, 3] False (interrupted enc [1, 2, 3] 2 fresh) = (Inr r, w')"
    "r_features r = Some (map (embed_slice enc) [1, 2, 3])"
    "encoder_calls w' = encoder_calls (interrupted enc [1, 2, 3] 2 fresh) @
       map (grey_to_rgb enc) (drop 2 [1, 2, 3])"
    by (elim exE conjE) (rule that)
  then show "\<exists>r w'. precompute_3d enc [1, 2, 3] False (interrupted enc [1, 2, 3] 2 fresh) = (Inr r, w') \<and>
         r_features r = Some [[1, 0], [2, 0], [3, 0]] \<and>
         encoder_calls w' = encoder_calls (interrupted enc [1, 2, 3] 2 fresh) @ [3]"
    by (simp add: embed_slice_def enc_def)
qed

section \<open>A second call on a computed container\<close>

lemma attrs_after_set:
  "map_of (attrs (set_attr ''original_size'' b (set_attr ''input_size'' a w))) ''input_size'' = Some a"
  "map_of (attrs (set_attr ''original_size'' b (set_attr ''input_size'' a w))) ''original_size'' = Some b"
  "features (set_attr ''original_size'' b (set_attr ''input_size'' a w)) = features w"
  "encoder_calls (set_attr ''original_size'' b (set_attr ''input_size'' a w)) = encoder_calls w"
  "attr_writes (set_attr ''original_size'' b (set_attr ''input_size'' a w)) =
     attr_writes w @ [''input_size'', ''original_size'']"
  by (simp_all add: set_attr_def update_conv')

lemma load_branch_2d:
  "has_attr ''input_size'' w \<Longrightarrow> snd (precompute_2d p img w) = w"
  by (simp add: precompute_2d_def split: sum.splits prod.splits)

lemma load_branch_3d:
  "has_attr ''input_size'' w \<Longrightarrow> snd (precompute_3d p input lazy_loading w) = w"
  by (simp add: precompute_3d_def split: sum.splits prod.splits)

lemma load_branch_result:
  assumes "has_attr ''input_size'' w" "load_stored w = Inr (fs, osz, isz)"
  shows "precompute_2d p img w =
           (Inr \<lparr>r_features = Some fs, r_input_size = isz, r_original_size = osz\<rparr>, w)"
    "precompute_3d p input lazy_loading w =
           (Inr \<lparr>r_features = Some fs, r_input_size = isz, r_original_size = osz\<rparr>, w)"
  using assms by (simp_all add: precompute_2d_def precompute_3d_def)

lemma second_2d:
  assumes "precompute_2d p img w = (Inr r, w1)"
  shows "precompute_2d p img w1 = (Inr r, w1)"
proof (cases "has_attr ''input_size'' w")
  case True
  with assms show ?thesis
    by (auto simp: precompute_2d_def split: sum.splits prod.splits)
next
  case False
  with assms obtain im where im: "to_image p img = Some im" and fn: "features w = None"
    by (auto simp: precompute_2d_def Let_def split: option.splits)
  let ?w1 = "w\<lparr>encoder_calls := encoder_calls w @ [im], features := Some [get_image_embedding p im]\<rparr>"
  from assms False im fn have
    r: "r = \<lparr>r_features = Some [get_image_embedding p im],
             r_input_size = Some (pred_input_size p im),
             r_original_size = Some (pred_original_size p im)\<rparr>"
    and w1: "w1 = set_attr ''original_size'' (Some (pred_original_size p im))
                   (set_attr ''input_size'' (Some (pred_input_size p im)) ?w1)"
    by (auto simp: precompute_2d_def Let_def)
  have h: "has_attr ''input_size'' w1"
    unfolding w1 has_attr_def attrs_after_set by simp
  have l: "load_stored w1 = Inr ([get_image_embedding p im],
      Some (pred_original_size p im), Some (pred_input_size p im))"
    unfolding w1 load_stored_def attrs_after_set by simp
  show ?thesis
    unfolding load_branch_result(1) [OF h l] r by simp
qed

lemma second_3d:
  assumes "precompute_3d p input False w = (Inr r, w1)"
  shows "precompute_3d p input lazy_loading w1 = (Inr r, w1)"
proof (cases "has_attr ''input_size'' w")
  case True
  with assms show ?thesis
    by (auto simp: precompute_3d_def split: sum.splits prod.splits)
next
  case False
  with assms obtain osz isz wl fs where
    loop: "precompute_3d_loop p (length input) 0 input (None, None) w = (None, (osz, isz), wl)"
    and w1: "w1 = set_attr ''original_size'' osz (set_attr ''input_size'' isz wl)"
    and fs: "features wl = Some fs"
    and r: "r = \<lparr>r_features = Some fs, r_input_size = isz, r_original_size = osz\<rparr>"
    by (auto simp: precompute_3d_def Let_def attrs_after_set
        split: option.splits prod.splits if_splits)
  have h: "has_attr ''input_size'' w1"
    unfolding w1 has_attr_def attrs_after_set by simp
  have l: "load_stored w1 = Inr (fs, osz, isz)"
    unfolding w1 load_stored_def attrs_after_set using fs by simp
  show ?thesis
    unfolding load_branch_result(2) [OF h l] r by simp
qed

text \<open>
  C5. When a call of \<open>precompute_image_embeddings\<close> with a save path and
  \<open>lazy_loading = False\<close> has returned, a second call with the same predictor, input
  and \<open>ndim\<close> on the container it left returns without error, leaves the container
  and the log of encoder runs exactly as they were (the encoder is not run again, nothing
  is written), and returns the same features.
\<close>

theorem C5_second_call:
  assumes "precompute_image_embeddings p input False ndim_arg w = (Inr r, w1)"
  shows "\<exists>r2. precompute_image_embeddings p input lazy_loading ndim_arg w1 = (Inr r2, w1) \<and>
           r_features r2 = r_features r \<and>
           encoder_calls (snd (precompute_image_embeddings p input lazy_loading ndim_arg w1)) =
             encoder_calls w1"
proof -
  define nd where "nd = (case ndim_arg of None \<Rightarrow> ndim input | Some n \<Rightarrow> n)"
  consider (two) "nd = 2" | (three) "nd \<noteq> 2" "nd = 3" | (other) "nd \<noteq> 2" "nd \<noteq> 3" by blast
  then show ?thesis
  proof cases
    case two
    with assms have "precompute_2d p (as_image input) w = (Inr r, w1)"
      by (simp add: precompute_image_embeddings_def nd_def)
    from second_2d [OF this] two show ?thesis
      by (simp add: precompute_image_embeddings_def nd_def)
  next
    case three
    with assms have "precompute_3d p (z_slices input) False w = (Inr r, w1)"
      by (simp add: precompute_image_embeddings_def nd_def)
    from second_3d [OF this, of lazy_loading] three show ?thesis
      by (simp add: precompute_image_embeddings_def nd_def)
  next
    case other
    with assms show ?thesis
      by (simp add: precompute_image_embeddings_def nd_def)
  qed
qed

theorem C5_second_call_witness:
  "precompute_image_embeddings enc stack3 False None fresh =
     (Inr \<lparr>r_features = Some [[1, 0], [2, 0], [3, 0]], r_input_size = Some (3, 6),
            r_original_size = Some (3, 3)\<rparr>, stored3)
   \<and> (\<exists>r2. precompute_image_embeddings enc stack3 False None stored3 = (Inr r2, stored3) \<and>
          r_features r2 = Some [[1, 0], [2, 0], [3, 0]])"
proof
  show first: "precompute_image_embeddings enc stack3 False None fresh =
     (Inr \<lparr>r_features = Some [[1, 0], [2, 0], [3, 0]], r_input_size = Some (3, 6),
            r_original_size = Some (3, 3)\<rparr>, stored3)"
    by (simp add: store_defs stack3_def stored3_def Let_def)
  from C5_second_call [OF first, of False]
  show "\<exists>r2. precompute_image_embeddings enc stack3 False None stored3 = (Inr r2, stored3) \<and>
          r_features r2 = Some [[1, 0], [2, 0], [3, 0]]"
    by auto
qed

section \<open>The metadata of a 3D container\<close>

lemma uniform_first_last:
  assumes u: "uniform_sizes p input" and s: "set cs \<subseteq> grey_to_rgb p ` set input" and n: "cs \<noteq> []"
  shows "slice_sizes p (last cs) = slice_sizes p (hd cs)"
proof -
  from n s have "last cs \<in> grey_to_rgb p ` set input" using last_in_set by blast
  then obtain x where x: "x \<in> set input" "last cs = grey_to_rgb p x" by (rule imageE)
  from n s have "hd cs \<in> grey_to_rgb p ` set input" using hd_in_set by blast
  then obtain y where y: "y \<in> set input" "hd cs = grey_to_rgb p y" by (rule imageE)
  from u x(1) y(1) have "slice_sizes p (grey_to_rgb p x) = slice_sizes p (grey_to_rgb p y)"
    unfolding uniform_sizes_def by blast
  then show ?thesis unfolding x(2) y(2) .
qed

text \<open>
  C6. For a container without the attribute \<open>input_size\<close>, an encoder that gives all
  slices of the stack the same pair of sizes, and a call of \<open>_precompute_3d\<close> that
  returns: the slice loop runs to its end without assigning an attribute, and the two
  attributes are assigned after it, once each, whatever the number of slices; the stored
  values are the ones the call returns; when the encoder was run in this call, they are
  the sizes of the first slice it was run on; and no later call of \<open>_precompute_3d\<close>
  or \<open>_precompute_2d\<close> writes to the container.
\<close>

theorem C6_metadata:
  assumes "\<not> has_attr ''input_size'' w"
    and "uniform_sizes p input"
    and "precompute_3d p input lazy_loading w = (Inr r, w')"
  shows "(\<exists>sizes wl.
          precompute_3d_loop p (length input) 0 input (None, None) w = (None, sizes, wl)
          \<and> attrs wl = attrs w \<and> attr_writes wl = attr_writes w
          \<and> w' = set_attr ''original_size'' (fst sizes) (set_attr ''input_size'' (snd sizes) wl))
     \<and> attr_writes w' = attr_writes w @ [''input_size'', ''original_size'']
     \<and> map_of (attrs w') ''input_size'' = Some (r_input_size r)
     \<and> map_of (attrs w') ''original_size'' = Some (r_original_size r)
     \<and> (\<exists>cs. encoder_calls w' = encoder_calls w @ cs \<and>
           (cs \<noteq> [] \<longrightarrow> (r_original_size r, r_input_size r) = slice_sizes p (hd cs)))
     \<and> (\<forall>p2 input2 lazy2. snd (precompute_3d p2 input2 lazy2 w') = w')
     \<and> (\<forall>p2 img2. snd (precompute_2d p2 img2 w') = w')"
proof -
  from assms(1,3) obtain osz isz wl where
    loop: "precompute_3d_loop p (length input) 0 input (None, None) w = (None, (osz, isz), wl)"
    and w': "w' = set_attr ''original_size'' osz (set_attr ''input_size'' isz wl)"
    and r: "r_input_size r = isz" "r_original_size r = osz"
    by (auto simp: precompute_3d_def Let_def split: option.splits prod.splits if_splits)
  from loop_meta [OF loop] obtain cs where
    m: "attrs wl = attrs w" "attr_writes wl = attr_writes w"
    and c: "encoder_calls wl = encoder_calls w @ cs"
    and s: "(osz, isz) = (if cs = [] then (None, None) else slice_sizes p (last cs))"
    by (elim exE conjE) (rule that)
  from loop_calls_from_slices [OF loop] obtain cs2 where
    c2: "encoder_calls wl = encoder_calls w @ cs2" and sub2: "set cs2 \<subseteq> grey_to_rgb p ` set input"
    by (elim exE conjE) (rule that)
  from c c2 have "cs2 = cs" by simp
  with sub2 have sub: "set cs \<subseteq> grey_to_rgb p ` set input" by simp
  have first: "cs \<noteq> [] \<longrightarrow> (osz, isz) = slice_sizes p (hd cs)"
    using s uniform_first_last [OF assms(2) sub] by simp
  have "precompute_3d_loop p (length input) 0 input (None, None) w = (None, (osz, isz), wl)
          \<and> attrs wl = attrs w \<and> attr_writes wl = attr_writes w
          \<and> w' = set_attr ''original_size'' (fst (osz, isz))
                 (set_attr ''input_size'' (snd (osz, isz)) wl)"
    using loop m w' by simp
  then have l: "\<exists>sizes wl.
          precompute_3d_loop p (length input) 0 input (None, None) w = (None, sizes, wl)
          \<and> attrs wl = attrs w \<and> attr_writes wl = attr_writes w
          \<and> w' = set_attr ''original_size'' (fst sizes) (set_attr ''input_size'' (snd sizes) wl)"
    by (intro exI)
  have h: "has_attr ''input_size'' w'"
    unfolding w' has_attr_def attrs_after_set by simp
  have a: "attr_writes w' = attr_writes w @ [''input_size'', ''original_size'']"
    unfolding w' attrs_after_set m ..
  have b: "map_of (attrs w') ''input_size'' = Some (r_input_size r)"
    "map_of (attrs w') ''original_size'' = Some (r_original_size r)"
    unfolding w' attrs_after_set r by simp_all
  have "encoder_calls w' = encoder_calls w @ cs \<and>
           (cs \<noteq> [] \<longrightarrow> (r_original_size r, r_input_size r) = slice_sizes p (hd cs))"
    unfolding w' attrs_after_set r using c first by simp
  then have d: "\<exists>cs. encoder_calls w' = encoder_calls w @ cs \<and>
           (cs \<noteq> [] \<longrightarrow> (r_original_size r, r_input_size r) = slice_sizes p (hd cs))"
    by (rule exI)
  have r3: "\<forall>p2 input2 lazy2. snd (precompute_3d p2 input2 lazy2 w') = w'"
    using load_branch_3d [OF h] by simp
  have r2: "\<forall>p2 img2. snd (precompute_2d p2 img2 w') = w'"
    using load_branch_2d [OF h] by simp
  from l a b d r3 r2 show ?thesis by (intro conjI)
qed

theorem C6_metadata_witness:
  "\<not> has_attr ''input_size'' fresh
   \<and> uniform_sizes enc_fixed [1, 2, 3]
   \<and> precompute_3d enc_fixed [1, 2, 3] False fresh =
       (Inr \<lparr>r_features = Some [[1, 0], [2, 0], [3, 0]], r_input_size = Some (4, 6),
              r_original_size = Some (2, 3)\<rparr>, stored_fixed)
   \<and> slice_sizes enc_fixed 1 = (Some (2, 3), Some (4, 6))
   \<and> attr_writes stored_fixed = attr_writes fresh @ [''input_size'', ''original_size'']
   \<and> snd (precompute_3d enc_fixed [4, 5] False stored_fixed) = stored_fixed"
proof -
  have h: "\<not> has_attr ''input_size'' fresh" by (simp add: has_attr_def fresh_def)
  have u: "uniform_sizes enc_fixed [1, 2, 3]"
    by (simp add: uniform_sizes_def slice_sizes_def enc_fixed_def)
  have run: "precompute_3d enc_fixed [1, 2, 3] False fresh =
       (Inr \<lparr>r_features = Some [[1, 0], [2, 0], [3, 0]], r_input_size = Some (4, 6),
              r_original_size = Some (2, 3)\<rparr>, stored_fixed)"
    by (simp add: precompute_3d_def has_attr_def set_attr_def count_nonzero_def fresh_def
        enc_fixed_def stored_fixed_def Let_def)
  have s: "slice_sizes enc_fixed 1 = (Some (2, 3), Some (4, 6))"
    by (simp add: slice_sizes_def enc_fixed_def)
  note t = C6_metadata [OF h u run]
  from t have a: "attr_writes stored_fixed = attr_writes fresh @ [''input_size'', ''original_size'']"
    by (elim conjE)
  from t have "\<forall>p2 input2 lazy2. snd (precompute_3d p2 input2 lazy2 stored_fixed) = stored_fixed"
    by (elim conjE)
  then have "snd (precompute_3d enc_fixed [4, 5] False stored_fixed) = stored_fixed"
    by (elim allE)
  with h u run s a show ?thesis by (intro conjI)
qed

text \<open>
  The loop assigns the pair after every run of the encoder (line 207). With an encoder
  whose sizes differ from slice to slice, which the data model excludes, the pair kept is
  the one of the last slice computed.
\<close>

lemma sizes_of_last_computed_slice:
  "precompute_3d enc [1, 2] False fresh =
     (Inr \<lparr>r_features = Some [[1, 0], [2, 0]], r_input_size = Some (2, 4),
            r_original_size = Some (2, 2)\<rparr>,
      \<lparr>attrs = [(''input_size'', Some (2, 4)), (''original_size'', Some (2, 2))],
        features = Some [[1, 0], [2, 0]], encoder_calls = [1, 2],
        attr_writes = [''input_size'', ''original_size'']\<rparr>)
   \<and> pred_input_size enc 1 = (1, 2) \<and> pred_original_size enc 1 = (1, 1)
   \<and> Some (2, 4) \<noteq> Some (pred_input_size enc 1)"
  by (simp add: store_defs Let_def)

end
